theory Spec2Isabelle
  imports
    Main
    "HOL-Library.AList"
    "HOL-Library.Char_ord"
    "HOL-Library.List_Lexorder"
begin

section \<open>The music engine of \<^verbatim>\<open>main.py\<close>\<close>

text \<open>
  \<^verbatim>\<open>run_engine\<close> is one Python function with nested closures over four local
  variables (\<^verbatim>\<open>music_sets\<close>, \<^verbatim>\<open>current_set_name\<close>, \<^verbatim>\<open>current_state\<close>,
  \<^verbatim>\<open>current_channel\<close>).  The closures become functions on a record of these
  variables; everything the engine does to the outside world (printing, calls on the
  mixer channel, the callback, sleeping, sampling the stop event and the keyboard) is
  appended to an event list kept in the same record.  What the outside world answers
  (the directory tree, the key samples, the stop flag, the random draws, what the
  callback does) is an explicit argument.

  The library calls are taken to behave as documented: \<^verbatim>\<open>os.listdir\<close>,
  \<^verbatim>\<open>pygame.mixer.init\<close>, \<^verbatim>\<open>Channel.play\<close>, \<^verbatim>\<open>Channel.fadeout\<close> and
  \<^verbatim>\<open>keyboard.is_pressed\<close> do not raise.  The failures the source itself handles
  (\<^verbatim>\<open>pygame.mixer.Sound\<close> on a file it cannot read, an \<^verbatim>\<open>Exception\<close> from the
  callback, \<^verbatim>\<open>KeyboardInterrupt\<close> in the main loop), the exceptions its own
  expressions can raise (\<^verbatim>\<open>KeyError\<close> on \<^verbatim>\<open>music_sets[...]\<close>, \<^verbatim>\<open>IndexError\<close> from
  \<^verbatim>\<open>random.choice\<close> on an empty list) and the exceptions of the callback that
  \<^verbatim>\<open>except Exception\<close> does not catch are branches of the model.
\<close>

subsection \<open>Strings and paths\<close>

text \<open>
  \<^verbatim>\<open>str.lower\<close> on the ASCII letters; other bytes are kept.  A file name is a byte
  string here (UTF-8); the test below looks at the last four characters only, and no
  character outside ASCII has one of the letters of \<^verbatim>\<open>.wav\<close> and \<^verbatim>\<open>.ogg\<close> as its lower
  case.
\<close>

definition lower_char :: "char \<Rightarrow> char" where
  "lower_char c =
     (let n = (of_char c :: nat) in if 65 \<le> n \<and> n \<le> 90 then char_of (n + 32) else c)"

definition lower :: "string \<Rightarrow> string" where
  "lower s = map lower_char s"

definition endswith :: "string \<Rightarrow> string \<Rightarrow> bool" where
  "endswith s suffix =
     (length suffix \<le> length s \<and> drop (length s - length suffix) s = suffix)"

text \<open>The test of lines 70--71: \<^verbatim>\<open>f.lower().endswith(".wav") or f.lower().endswith(".ogg")\<close>.\<close>

definition is_audio :: "string \<Rightarrow> bool" where
  "is_audio f = (endswith (lower f) ''.wav'' \<or> endswith (lower f) ''.ogg'')"

text \<open>\<^verbatim>\<open>os.path.join\<close> of two components, with \<^verbatim>\<open>/\<close> as the separator.\<close>

definition path_join :: "string \<Rightarrow> string \<Rightarrow> string" where
  "path_join a b =
     (if b \<noteq> [] \<and> hd b = CHR ''/'' then b
      else if a = [] \<or> last a = CHR ''/'' then a @ b
      else a @ ''/'' @ b)"

subsection \<open>The file system and the rest of the environment\<close>

text \<open>
  A directory is its listing, in the order \<^verbatim>\<open>os.listdir\<close> returns it.  A file carries
  whether \<^verbatim>\<open>pygame.mixer.Sound\<close> can load it.  Names are resolved by lookup, as a path
  is: \<^verbatim>\<open>os.path.isdir\<close> holds of a name bound to a directory, and
  \<^verbatim>\<open>pygame.mixer.Sound\<close> succeeds on a name bound to a loadable file and raises on
  anything else (a directory, an unreadable file).
\<close>

datatype node = File bool | Dir "(string \<times> node) list"

datatype sound = Sound string

definition listdir :: "(string \<times> node) list \<Rightarrow> string list" where
  "listdir es = map fst es"

definition isdir :: "(string \<times> node) list \<Rightarrow> string \<Rightarrow> bool" where
  "isdir es name = (case map_of es name of Some (Dir _) \<Rightarrow> True | _ \<Rightarrow> False)"

definition subdir :: "(string \<times> node) list \<Rightarrow> string \<Rightarrow> (string \<times> node) list" where
  "subdir es name = (case map_of es name of Some (Dir sub) \<Rightarrow> sub | _ \<Rightarrow> [])"

definition loadable :: "(string \<times> node) list \<Rightarrow> string \<Rightarrow> bool" where
  "loadable es f = (map_of es f = Some (File True))"

record world =
  SETS_PATH :: string
  sets_root :: "node option"
  mixer_get_init :: bool
  channel0 :: "sound option"

text \<open>
  One record per iteration of the main loop: what the environment answers in that
  iteration.  \<open>rand\<close> is the index \<^verbatim>\<open>random.choice\<close> draws if it is called, \<open>step\<close> is
  what the callback does if it is called, and \<open>interrupt\<close> says that
  \<^verbatim>\<open>KeyboardInterrupt\<close> arrives during the iteration's \<^verbatim>\<open>time.sleep(0.02)\<close>.

  A call of the callback returns, or raises an exception whose class derives from
  \<^verbatim>\<open>Exception\<close> (\<open>Raises\<close>, with the exception's text), or raises one whose class does
  not (\<open>RaisesBase\<close>): \<^verbatim>\<open>KeyboardInterrupt\<close>, \<^verbatim>\<open>SystemExit\<close>, \<^verbatim>\<open>GeneratorExit\<close>, or
  another class that derives from \<^verbatim>\<open>BaseException\<close> only.
\<close>

datatype base_exception = KeyboardInterrupt | SystemExit | GeneratorExit | OtherBaseException string

datatype cb_result = Returns | Raises string | RaisesBase base_exception

record poll =
  stop_is_set :: bool
  is_pressed :: bool
  rand :: nat
  step :: cb_result
  interrupt :: bool

subsection \<open>Events, errors, engine state\<close>

datatype msg =
    EngineStarted
  | TriggerKey string
  | SetsFolderNotFound string
  | FailedToLoad string
  | SkippingSet string nat
  | NoValidSets
  | LoadedSets "string list"
  | PlayingSet string int
  | InvalidState int string
  | SwitchedToSet string
  | ToState2 string
  | ToState3 string
  | FinishedSet string string
  | OnStepError string
  | PressToAdvance string
  | KeyboardInterruptMsg
  | EngineStopped

text \<open>
  A message is kept as its kind and the values it shows, not as the text printed:
  \<open>TriggerKey k\<close> and \<open>PressToAdvance k\<close> are the messages of lines 55 and 174--177,
  which show \<^verbatim>\<open>k.upper()\<close>.
  \<open>Play sound loops fade_ms\<close> is \<^verbatim>\<open>current_channel.play(sound, loops=..., fade_ms=...)\<close>;
  \<open>Sleep\<close> is in milliseconds; \<open>AdvanceCall\<close> marks the call statement of line 190.
\<close>

datatype event =
    Print msg
  | SetEnvDefault
  | MixerInit
  | Fadeout nat
  | Play sound int nat
  | OnStep
  | Sleep nat
  | IsSet bool
  | IsPressed bool
  | AdvanceCall

datatype error = KeyError string | IndexError | Uncaught base_exception

datatype outcome = Normal | Raised error

record engine =
  music_sets :: "(string \<times> sound list) list"
  current_set_name :: "string option"
  current_state :: int
  current_channel :: "sound option"
  events :: "event list"

definition emit :: "event \<Rightarrow> engine \<Rightarrow> engine" where
  "emit e s = s\<lparr>events := events s @ [e]\<rparr>"

definition CROSSFADE_MS :: nat where
  "CROSSFADE_MS = 250"

subsection \<open>Loading the sets (lines 58--98)\<close>

text \<open>
  The inner loop of lines 78--85 over \<^verbatim>\<open>files[:3]\<close>: the sounds loaded, and the
  messages printed for the files that failed.
\<close>

fun load_files :: "string \<Rightarrow> (string \<times> node) list \<Rightarrow> string list \<Rightarrow> sound list \<times> event list" where
  "load_files folder_path es [] = ([], [])"
| "load_files folder_path es (f # fs) =
     (let full_path = path_join folder_path f;
          (sounds, evs) = load_files folder_path es fs
      in if loadable es f then (Sound full_path # sounds, evs)
         else (sounds, Print (FailedToLoad full_path) # evs))"

text \<open>The body of the outer loop (lines 65--92) for one name of the root listing.\<close>

definition scan_folder ::
  "string \<Rightarrow> (string \<times> node) list \<Rightarrow> string \<Rightarrow>
   (string \<times> sound list) list \<times> event list \<Rightarrow> (string \<times> sound list) list \<times> event list" where
  "scan_folder sets_path root folder acc =
     (let folder_path = path_join sets_path folder in
      if \<not> isdir root folder then acc
      else
        let files = filter is_audio (listdir (subdir root folder)) in
        if files = [] then acc
        else
          let (sounds, evs) = load_files folder_path (subdir root folder) (take 3 (sort files)) in
          if length sounds = 3
          then (AList.update folder sounds (fst acc), snd acc @ evs)
          else (fst acc, snd acc @ evs @ [Print (SkippingSet folder (length sounds))]))"

fun scan_folders ::
  "string \<Rightarrow> (string \<times> node) list \<Rightarrow> string list \<Rightarrow>
   (string \<times> sound list) list \<times> event list \<Rightarrow> (string \<times> sound list) list \<times> event list" where
  "scan_folders sets_path root [] acc = acc"
| "scan_folders sets_path root (folder # rest) acc =
     scan_folders sets_path root rest (scan_folder sets_path root folder acc)"

subsection \<open>The closures (lines 105--169)\<close>

definition play_loop_sound :: "sound \<Rightarrow> engine \<Rightarrow> engine" where
  "play_loop_sound sound s =
     (let s1 = (if current_channel s \<noteq> None then emit (Fadeout CROSSFADE_MS) s else s)
      in (emit (Play sound (- 1) CROSSFADE_MS) s1)\<lparr>current_channel := Some sound\<rparr>)"

definition play_current_state :: "engine \<Rightarrow> outcome \<times> engine" where
  "play_current_state s =
     (case current_set_name s of
        None \<Rightarrow> (Normal, s)
      | Some name \<Rightarrow>
          (case map_of (music_sets s) name of
             None \<Rightarrow> (Raised (KeyError name), s)
           | Some sounds \<Rightarrow>
               let index = current_state s - 1 in
               if 0 \<le> index \<and> index < int (length sounds)
               then (Normal,
                     play_loop_sound (sounds ! nat index)
                       (emit (Print (PlayingSet name (current_state s))) s))
               else (Normal, emit (Print (InvalidState (current_state s) name)) s)))"

text \<open>\<^verbatim>\<open>random.choice(seq)\<close> is \<^verbatim>\<open>seq[randbelow(len(seq))]\<close>; \<open>r\<close> is the number drawn.\<close>

definition random_choice :: "'a list \<Rightarrow> nat \<Rightarrow> error + 'a" where
  "random_choice xs r = (if xs = [] then Inl IndexError else Inr (xs ! (r mod length xs)))"

definition draw_pool :: "string option \<Rightarrow> (string \<times> sound list) list \<Rightarrow> string list" where
  "draw_pool exclude sets =
     (let names = map fst sets in
      case exclude of
        None \<Rightarrow> names
      | Some x \<Rightarrow> if x \<in> set names \<and> length names > 1 then remove1 x names else names)"

definition choose_random_set :: "string option \<Rightarrow> nat \<Rightarrow> engine \<Rightarrow> error + string" where
  "choose_random_set exclude r s = random_choice (draw_pool exclude (music_sets s)) r"

definition start_set :: "string \<Rightarrow> engine \<Rightarrow> outcome \<times> engine" where
  "start_set set_name s =
     play_current_state
       (emit (Print (SwitchedToSet set_name))
          (s\<lparr>current_set_name := Some set_name, current_state := 1\<rparr>))"

text \<open>
  Lines 164--169.  The argument is \<open>None\<close> when \<^verbatim>\<open>on_step\<close> is \<^verbatim>\<open>None\<close>, and otherwise
  what this call of the callback does.  \<^verbatim>\<open>except Exception\<close> catches the exceptions
  that derive from \<^verbatim>\<open>Exception\<close>; any other leaves \<^verbatim>\<open>advance_state\<close>.
\<close>

definition notify :: "cb_result option \<Rightarrow> engine \<Rightarrow> outcome \<times> engine" where
  "notify on_step s =
     (case on_step of
        None \<Rightarrow> (Normal, s)
      | Some Returns \<Rightarrow> (Normal, emit OnStep s)
      | Some (Raises e) \<Rightarrow> (Normal, emit (Print (OnStepError e)) (emit OnStep s))
      | Some (RaisesBase b) \<Rightarrow> (Raised (Uncaught b), emit OnStep s))"

text \<open>Lines 145--162: the branch on \<^verbatim>\<open>current_state\<close>, before the notification.\<close>

definition transition :: "string \<Rightarrow> nat \<Rightarrow> engine \<Rightarrow> outcome \<times> engine" where
  "transition name r s =
     (if current_state s = 1 then
        play_current_state (emit (Print (ToState2 name)) (s\<lparr>current_state := 2\<rparr>))
      else if current_state s = 2 then
        play_current_state (emit (Print (ToState3 name)) (s\<lparr>current_state := 3\<rparr>))
      else if current_state s = 3 then
        (case choose_random_set (Some name) r s of
           Inl e \<Rightarrow> (Raised e, s)
         | Inr new_set \<Rightarrow> start_set new_set (emit (Print (FinishedSet name new_set)) s))
      else play_current_state (s\<lparr>current_state := 1\<rparr>))"

definition advance_state :: "cb_result option \<Rightarrow> nat \<Rightarrow> engine \<Rightarrow> outcome \<times> engine" where
  "advance_state on_step r s =
     (case current_set_name s of
        None \<Rightarrow> (Normal, s)
      | Some name \<Rightarrow>
          (case transition name r s of
             (Normal, s') \<Rightarrow> notify on_step s'
           | (Raised e, s') \<Rightarrow> (Raised e, s')))"

subsection \<open>The main loop and shutdown (lines 180--205)\<close>

datatype loop_exit = Break | Interrupted | Propagated error | Polling

text \<open>
  \<open>Polling\<close>: the samples given are used up and the loop is still running.
  \<open>on_step\<close> and \<open>stop_event\<close> say whether the argument of that name is not \<^verbatim>\<open>None\<close>.
  An exception that leaves \<^verbatim>\<open>advance_state\<close> leaves the loop: \<^verbatim>\<open>KeyboardInterrupt\<close>
  (from the callback) to the \<^verbatim>\<open>except\<close> clause of line 197, any other out of the
  \<^verbatim>\<open>try\<close> statement.
\<close>

fun main_loop :: "bool \<Rightarrow> bool \<Rightarrow> poll list \<Rightarrow> bool \<Rightarrow> engine \<Rightarrow> loop_exit \<times> engine" where
  "main_loop on_step stop_event [] key_held s = (Polling, s)"
| "main_loop on_step stop_event (p # ps) key_held s =
     (let s1 = (if stop_event then emit (IsSet (stop_is_set p)) s else s) in
      if stop_event \<and> stop_is_set p then (Break, s1)
      else
        let s2 = emit (IsPressed (is_pressed p)) s1;
            (oc, key_held', s3) =
              (if is_pressed p then
                 if \<not> key_held then
                   (case advance_state (if on_step then Some (step p) else None) (rand p)
                           (emit AdvanceCall s2) of
                      (oc, s') \<Rightarrow> (oc, True, s'))
                 else (Normal, key_held, s2)
               else (Normal, False, s2))
        in case oc of
             Raised e \<Rightarrow>
               if e = Uncaught KeyboardInterrupt then (Interrupted, s3) else (Propagated e, s3)
           | Normal \<Rightarrow>
               let s4 = emit (Sleep 20) s3 in
               if interrupt p then (Interrupted, s4)
               else main_loop on_step stop_event ps key_held' s4)"

text \<open>The \<^verbatim>\<open>finally\<close> block of lines 200--205.\<close>

definition finally_block :: "engine \<Rightarrow> engine" where
  "finally_block s =
     emit (Print EngineStopped)
       (if current_channel s \<noteq> None
        then (emit (Sleep 500) (emit (Fadeout 500) s))\<lparr>current_channel := None\<rparr>
        else s)"

datatype run_result = Returned | Escaped error | StillRunning

text \<open>The \<^verbatim>\<open>try\<close> statement of lines 182--205, entered with \<^verbatim>\<open>key_held = False\<close>.\<close>

definition try_loop :: "bool \<Rightarrow> bool \<Rightarrow> poll list \<Rightarrow> engine \<Rightarrow> run_result \<times> engine" where
  "try_loop on_step stop_event polls s =
     (case main_loop on_step stop_event polls False s of
        (Break, s') \<Rightarrow> (Returned, finally_block s')
      | (Interrupted, s') \<Rightarrow> (Returned, finally_block (emit (Print KeyboardInterruptMsg) s'))
      | (Propagated e, s') \<Rightarrow> (Escaped e, finally_block s')
      | (Polling, s') \<Rightarrow> (StillRunning, s'))"

subsection \<open>\<^verbatim>\<open>run_engine\<close>\<close>

definition startup_events :: "world \<Rightarrow> string \<Rightarrow> event list" where
  "startup_events w trigger_key =
     (if mixer_get_init w then [] else [SetEnvDefault, MixerInit])
     @ [Print EngineStarted, Print (TriggerKey trigger_key)]"

text \<open>Lines 58--92: \<^verbatim>\<open>None\<close> when \<^verbatim>\<open>SETS_PATH\<close> is not a directory.\<close>

definition load_sets :: "world \<Rightarrow> ((string \<times> sound list) list \<times> event list) option" where
  "load_sets w =
     (case sets_root w of
        Some (Dir root) \<Rightarrow> Some (scan_folders (SETS_PATH w) root (listdir root) ([], []))
      | _ \<Rightarrow> None)"

text \<open>The locals of lines 58 and 101--103 once the sets are loaded.\<close>

definition initial_engine :: "(string \<times> sound list) list \<Rightarrow> sound option \<Rightarrow> event list \<Rightarrow> engine" where
  "initial_engine sets ch evs =
     \<lparr>music_sets = sets, current_set_name = None, current_state = 1,
      current_channel = ch, events = evs\<rparr>"

definition run_engine ::
  "world \<Rightarrow> string \<Rightarrow> bool \<Rightarrow> bool \<Rightarrow> nat \<Rightarrow> poll list \<Rightarrow> run_result \<times> event list" where
  "run_engine w trigger_key on_step stop_event rand0 polls =
     (case load_sets w of
        None \<Rightarrow>
          (Returned,
           startup_events w trigger_key @ [Print (SetsFolderNotFound (SETS_PATH w))])
      | Some (sets, evs) \<Rightarrow>
          if sets = [] then
            (Returned, startup_events w trigger_key @ evs @ [Print NoValidSets])
          else
            let s0 = initial_engine sets (channel0 w)
                       (startup_events w trigger_key @ evs @ [Print (LoadedSets (map fst sets))])
            in (case choose_random_set None rand0 s0 of
                  Inl e \<Rightarrow> (Escaped e, events s0)
                | Inr name \<Rightarrow>
                    (case start_set name s0 of
                       (Raised e, s1) \<Rightarrow> (Escaped e, events s1)
                     | (Normal, s1) \<Rightarrow>
                         (case try_loop on_step stop_event polls
                                 (emit (Print (PressToAdvance trigger_key)) s1) of
                            (res, s2) \<Rightarrow> (res, events s2)))))"

section \<open>Invariants and observations\<close>

text \<open>
  The library once loaded: not empty, one entry per name, three sounds per entry.
  \<open>set_inv\<close>: the library is so and the current set, if any, is one of its names;
  \<open>engine_inv\<close>: moreover the state is 1, 2 or 3.
\<close>

definition lib_ok :: "(string \<times> sound list) list \<Rightarrow> bool" where
  "lib_ok sets = (sets \<noteq> [] \<and> distinct (map fst sets) \<and> list_all (\<lambda>kv. length (snd kv) = 3) sets)"

definition set_inv :: "engine \<Rightarrow> bool" where
  "set_inv s =
     (lib_ok (music_sets s) \<and>
      (case current_set_name s of None \<Rightarrow> True | Some name \<Rightarrow> name \<in> set (map fst (music_sets s))))"

definition engine_inv :: "engine \<Rightarrow> bool" where
  "engine_inv s = (set_inv s \<and> (current_state s = 1 \<or> current_state s = 2 \<or> current_state s = 3))"

fun transition_event :: "event \<Rightarrow> bool" where
  "transition_event (Print (ToState2 _)) = True"
| "transition_event (Print (ToState3 _)) = True"
| "transition_event (Print (FinishedSet _ _)) = True"
| "transition_event (Print (SwitchedToSet _)) = True"
| "transition_event (Print (PlayingSet _ _)) = True"
| "transition_event (Fadeout _) = True"
| "transition_event (Play _ _ _) = True"
| "transition_event _ = False"

text \<open>The events of the callback's call, and how the call ends.\<close>

definition notify_events :: "cb_result option \<Rightarrow> event list" where
  "notify_events on_step =
     (case on_step of
        None \<Rightarrow> []
      | Some Returns \<Rightarrow> [OnStep]
      | Some (Raises e) \<Rightarrow> [OnStep, Print (OnStepError e)]
      | Some (RaisesBase b) \<Rightarrow> [OnStep])"

definition notify_outcome :: "cb_result option \<Rightarrow> outcome" where
  "notify_outcome on_step =
     (case on_step of Some (RaisesBase b) \<Rightarrow> Raised (Uncaught b) | _ \<Rightarrow> Normal)"

fun notify_event :: "event \<Rightarrow> bool" where
  "notify_event OnStep = True"
| "notify_event (Print (OnStepError _)) = True"
| "notify_event _ = False"

text \<open>
  \<^verbatim>\<open>advance_state\<close> called again and again, once per element of the list (the callback's
  behaviour and the random draw of that call), stopping at an exception.
\<close>

fun advance_times :: "(cb_result option \<times> nat) list \<Rightarrow> engine \<Rightarrow> outcome \<times> engine" where
  "advance_times [] s = (Normal, s)"
| "advance_times ((on_step, r) # rest) s =
     (case advance_state on_step r s of
        (Normal, s') \<Rightarrow> advance_times rest s'
      | (Raised e, s') \<Rightarrow> (Raised e, s'))"

text \<open>Concrete engine states: a library of one set and a library of two.\<close>

definition one_set :: engine where
  "one_set = \<lparr>music_sets = [(''A'', [Sound ''a1'', Sound ''a2'', Sound ''a3''])],
     current_set_name = Some ''A'', current_state = 1, current_channel = Some (Sound ''a1''),
     events = []\<rparr>"

definition two_sets :: engine where
  "two_sets = \<lparr>music_sets = [(''A'', [Sound ''a1'', Sound ''a2'', Sound ''a3'']),
                              (''B'', [Sound ''b1'', Sound ''b2'', Sound ''b3''])],
     current_set_name = Some ''A'', current_state = 3, current_channel = Some (Sound ''a3''),
     events = []\<rparr>"

definition one_set_3 :: engine where
  "one_set_3 = one_set\<lparr>current_state := 3, current_channel := Some (Sound ''a3'')\<rparr>"

text \<open>
  What scanning one directory amounts to: the files selected (lines 69--79), the sounds
  loaded from them, whether the set is accepted (line 87), and the messages printed.
\<close>

definition selected :: "(string \<times> node) list \<Rightarrow> string list" where
  "selected es = take 3 (sort (filter is_audio (listdir es)))"

definition loaded :: "(string \<times> node) list \<Rightarrow> string list" where
  "loaded es = filter (loadable es) (selected es)"

definition valid_files :: "(string \<times> node) list \<Rightarrow> string list" where
  "valid_files es = filter (\<lambda>f. is_audio f \<and> loadable es f) (listdir es)"

definition tracks_at :: "string \<Rightarrow> string list \<Rightarrow> sound list" where
  "tracks_at folder_path fs = map (\<lambda>f. Sound (path_join folder_path f)) fs"

definition accepted :: "(string \<times> node) list \<Rightarrow> string \<Rightarrow> bool" where
  "accepted root folder = (isdir root folder \<and> length (loaded (subdir root folder)) = 3)"

definition folder_events :: "string \<Rightarrow> (string \<times> node) list \<Rightarrow> string \<Rightarrow> event list" where
  "folder_events sets_path root folder =
     (if \<not> isdir root folder \<or> filter is_audio (listdir (subdir root folder)) = [] then []
      else map (\<lambda>f. Print (FailedToLoad (path_join (path_join sets_path folder) f)))
             (filter (\<lambda>f. \<not> loadable (subdir root folder) f) (selected (subdir root folder)))
           @ (if length (loaded (subdir root folder)) = 3 then []
              else [Print (SkippingSet folder (length (loaded (subdir root folder))))]))"

fun load_event :: "event \<Rightarrow> bool" where
  "load_event (Print (FailedToLoad _)) = True"
| "load_event (Print (SkippingSet _ _)) = True"
| "load_event _ = False"

text \<open>The message that a set is skipped, for a given directory (whatever the number).\<close>

fun skip_warning_for :: "string \<Rightarrow> event \<Rightarrow> bool" where
  "skip_warning_for folder (Print (SkippingSet f _)) = (f = folder)"
| "skip_warning_for folder _ = False"

definition root_is_dir :: "world \<Rightarrow> bool" where
  "root_is_dir w = (case sets_root w of Some (Dir _) \<Rightarrow> True | _ \<Rightarrow> False)"

text \<open>The calls on the channel, the callback and the main loop's own events.\<close>

fun activity :: "event \<Rightarrow> bool" where
  "activity (Play _ _ _) = True"
| "activity (Fadeout _) = True"
| "activity OnStep = True"
| "activity (Sleep _) = True"
| "activity (IsSet _) = True"
| "activity (IsPressed _) = True"
| "activity AdvanceCall = True"
| "activity _ = False"

text \<open>
  A root directory with: a set of four audio files (and a picture), a set of three, a
  directory whose second file cannot be loaded, a directory with no audio file, and a
  plain file.
\<close>

definition demo_root :: "(string \<times> node) list" where
  "demo_root =
     [(''A'', Dir [(''3.wav'', File True), (''cover.png'', File True), (''1.wav'', File True),
                   (''4.wav'', File True), (''2.OGG'', File True)]),
      (''x.wav'', File True),
      (''B'', Dir [(''b1.ogg'', File True), (''b2.ogg'', File True), (''b3.ogg'', File True)]),
      (''C'', Dir [(''c1.wav'', File True), (''c2.wav'', File False), (''c3.wav'', File True)]),
      (''notes'', Dir [(''readme.txt'', File True)])]"

definition demo_world :: world where
  "demo_world = \<lparr>SETS_PATH = ''sets'', sets_root = Some (Dir demo_root),
                  mixer_get_init = False, channel0 = None\<rparr>"

definition demo_sets :: "(string \<times> sound list) list" where
  "demo_sets =
     [(''A'', [Sound ''sets/A/1.wav'', Sound ''sets/A/2.OGG'', Sound ''sets/A/3.wav'']),
      (''B'', [Sound ''sets/B/b1.ogg'', Sound ''sets/B/b2.ogg'', Sound ''sets/B/b3.ogg''])]"

text \<open>A directory of four audio files, the first of which (by name) cannot be loaded.\<close>

definition bad_first :: "(string \<times> node) list" where
  "bad_first = [(''a.wav'', File False), (''b.wav'', File True), (''c.wav'', File True),
                (''d.wav'', File True)]"

definition bad_first_world :: world where
  "bad_first_world = \<lparr>SETS_PATH = ''sets'', sets_root = Some (Dir [(''A'', Dir bad_first)]),
                       mixer_get_init = False, channel0 = None\<rparr>"

definition missing_world :: world where
  "missing_world = \<lparr>SETS_PATH = ''sets'', sets_root = None,
                     mixer_get_init = True, channel0 = None\<rparr>"

text \<open>The events of the main loop itself.\<close>

fun loop_event :: "event \<Rightarrow> bool" where
  "loop_event (IsSet _) = True"
| "loop_event (IsPressed _) = True"
| "loop_event AdvanceCall = True"
| "loop_event (Sleep _) = True"
| "loop_event _ = False"

text \<open>
  The key samples of an event list, in order, and the events a sequence of samples must
  give under edge triggering: after each sample, a call of \<^verbatim>\<open>advance_state\<close> exactly when
  the key is pressed in this sample and was not in the one before (\<open>held\<close> stands for
  the sample before the first).
\<close>

fun key_event :: "event \<Rightarrow> bool" where
  "key_event (IsPressed _) = True"
| "key_event AdvanceCall = True"
| "key_event _ = False"

fun samples :: "event list \<Rightarrow> bool list" where
  "samples [] = []"
| "samples (IsPressed b # es) = b # samples es"
| "samples (_ # es) = samples es"

fun edge_trace :: "bool \<Rightarrow> bool list \<Rightarrow> event list" where
  "edge_trace held [] = []"
| "edge_trace held (b # bs) =
     IsPressed b # (if b \<and> \<not> held then [AdvanceCall] else []) @ edge_trace b bs"

fun rising_edges :: "bool \<Rightarrow> bool list \<Rightarrow> nat" where
  "rising_edges held [] = 0"
| "rising_edges held (b # bs) = (if b \<and> \<not> held then 1 else 0) + rising_edges b bs"

fun invalid_state_event :: "event \<Rightarrow> bool" where
  "invalid_state_event (Print (InvalidState _ _)) = True"
| "invalid_state_event _ = False"

text \<open>No ``Invalid state'' message among the events.\<close>

definition no_invalid_state :: "event list \<Rightarrow> bool" where
  "no_invalid_state evs = list_all (\<lambda>e. \<not> invalid_state_event e) evs"

text \<open>
  Samples: key released; key pressed; key pressed and the callback raising
  \<^verbatim>\<open>SystemExit\<close>; stop event set (with the key pressed).
\<close>

definition idle_poll :: poll where
  "idle_poll = \<lparr>stop_is_set = False, is_pressed = False, rand = 0, step = Returns, interrupt = False\<rparr>"

definition press_poll :: poll where
  "press_poll = \<lparr>stop_is_set = False, is_pressed = True, rand = 0, step = Returns, interrupt = False\<rparr>"


definition stop_poll :: poll where
  "stop_poll = \<lparr>stop_is_set = True, is_pressed = True, rand = 0, step = Returns, interrupt = False\<rparr>"

text \<open>
  The polls at which the key is sampled, as far as the stop event and the interrupts
  go: those before the first poll at which the stop event is set, and up to (and with)
  the first one during which an interrupt arrives.
\<close>

fun polled :: "bool \<Rightarrow> poll list \<Rightarrow> poll list" where
  "polled stop_event [] = []"
| "polled stop_event (p # ps) =
     (if stop_event \<and> stop_is_set p then []
      else p # (if interrupt p then [] else polled stop_event ps))"

text \<open>
  The polls at which a press begins: the key is pressed, and was not at the poll before
  (\<open>held\<close> stands for the poll before the first).
\<close>

fun presses :: "bool \<Rightarrow> poll list \<Rightarrow> poll list" where
  "presses held [] = []"
| "presses held (p # ps) =
     (if is_pressed p \<and> \<not> held then [p] else []) @ presses (is_pressed p) ps"

text \<open>What \<^verbatim>\<open>advance_state\<close> is given at a poll: the callback's behaviour and the draw.\<close>

definition press_inputs :: "bool \<Rightarrow> poll list \<Rightarrow> (cb_result option \<times> nat) list" where
  "press_inputs on_step ps = map (\<lambda>p. (if on_step then Some (step p) else None, rand p)) ps"

text \<open>
  Two engine states with the same variables (their events may differ), and a function
  that does the same from both: same outcome, same variables afterwards, same events
  added, none of them an event of the main loop.
\<close>

definition same_vars :: "engine \<Rightarrow> engine \<Rightarrow> bool" where
  "same_vars a b =
     (music_sets a = music_sets b \<and> current_set_name a = current_set_name b \<and>
      current_state a = current_state b \<and> current_channel a = current_channel b)"

definition same_run :: "(engine \<Rightarrow> outcome \<times> engine) \<Rightarrow> engine \<Rightarrow> engine \<Rightarrow> bool" where
  "same_run f a b =
     (fst (f a) = fst (f b) \<and> same_vars (snd (f a)) (snd (f b)) \<and>
      (\<exists>tr. list_all (\<lambda>e. \<not> loop_event e) tr \<and>
            events (snd (f a)) = events a @ tr \<and> events (snd (f b)) = events b @ tr))"

text \<open>A run of six polls: two presses (the first held over two polls), then the stop event.\<close>

definition demo_polls :: "poll list" where
  "demo_polls = [press_poll, press_poll, idle_poll, press_poll, stop_poll, press_poll]"

section \<open>Properties\<close>

subsection \<open>Events are only appended\<close>

lemma events_emit: "events (emit e s) = events s @ [e]"
  by (simp add: emit_def)

lemma fields_emit:
  "music_sets (emit e s) = music_sets s"
  "current_set_name (emit e s) = current_set_name s"
  "current_state (emit e s) = current_state s"
  "current_channel (emit e s) = current_channel s"
  by (simp_all add: emit_def)

lemma events_play_loop_sound:
  "events (play_loop_sound sound s) =
     events s @ (if current_channel s = None then [] else [Fadeout CROSSFADE_MS])
       @ [Play sound (- 1) CROSSFADE_MS]"
  by (simp add: play_loop_sound_def events_emit Let_def)

lemma fields_play_loop_sound:
  "music_sets (play_loop_sound sound s) = music_sets s"
  "current_set_name (play_loop_sound sound s) = current_set_name s"
  "current_state (play_loop_sound sound s) = current_state s"
  "current_channel (play_loop_sound sound s) = Some sound"
  by (simp_all add: play_loop_sound_def fields_emit Let_def)

subsection \<open>The state machine\<close>

lemma notify_eq:
  "notify on_step s = (notify_outcome on_step, s\<lparr>events := events s @ notify_events on_step\<rparr>)"
  by (simp add: notify_def notify_events_def notify_outcome_def emit_def
      split: option.splits cb_result.splits)

text \<open>What \<^verbatim>\<open>play_current_state\<close> does when the set is in the library and the index is in range.\<close>

lemma play_current_state_ok:
  assumes "current_set_name s = Some name" "map_of (music_sets s) name = Some tracks"
    "0 < current_state s" "current_state s \<le> int (length tracks)"
  shows "play_current_state s =
    (Normal, s\<lparr>current_channel := Some (tracks ! nat (current_state s - 1)),
               events := events s @ [Print (PlayingSet name (current_state s))]
                  @ (if current_channel s = None then [] else [Fadeout CROSSFADE_MS])
                  @ [Play (tracks ! nat (current_state s - 1)) (- 1) CROSSFADE_MS]\<rparr>)"
  using assms
  by (simp add: play_current_state_def play_loop_sound_def emit_def Let_def)

lemma lib_ok_lookup:
  assumes "lib_ok sets" "name \<in> set (map fst sets)"
  shows "\<exists>tracks. map_of sets name = Some tracks \<and> length tracks = 3"
proof -
  from assms(2) obtain tracks where m: "map_of sets name = Some tracks"
    by (metis domD dom_map_of_conv_image_fst set_map)
  then have "(name, tracks) \<in> set sets" by (rule map_of_SomeD)
  with assms(1) have "length tracks = 3" by (auto simp: lib_ok_def list_all_iff)
  with m show ?thesis by blast
qed

lemma draw_pool_props:
  assumes "lib_ok sets" "name \<in> set (map fst sets)"
  shows "draw_pool (Some name) sets \<noteq> []"
    and "set (draw_pool (Some name) sets) \<subseteq> set (map fst sets)"
    and "distinct (draw_pool (Some name) sets)"
    and "length sets > 1 \<Longrightarrow> set (draw_pool (Some name) sets) = set (map fst sets) - {name}"
    and "length sets = 1 \<Longrightarrow> draw_pool (Some name) sets = [name]"
proof -
  let ?names = "map fst sets"
  have d: "distinct ?names" and ne: "sets \<noteq> []" using assms(1) by (simp_all add: lib_ok_def)
  show "draw_pool (Some name) sets \<noteq> []"
  proof (cases "length sets > 1")
    case True
    then have "length (remove1 name ?names) > 0" using assms(2)
      by (simp add: length_remove1)
    with True assms(2) show ?thesis by (auto simp: draw_pool_def Let_def)
  next
    case False
    with ne show ?thesis by (simp add: draw_pool_def Let_def)
  qed
  show "set (draw_pool (Some name) sets) \<subseteq> set ?names"
    using set_remove1_subset[of name ?names] by (auto simp: draw_pool_def Let_def)
  show "distinct (draw_pool (Some name) sets)"
    using d by (simp add: draw_pool_def Let_def)
  show "length sets > 1 \<Longrightarrow> set (draw_pool (Some name) sets) = set ?names - {name}"
    using d assms(2) by (simp add: draw_pool_def Let_def)
  show "length sets = 1 \<Longrightarrow> draw_pool (Some name) sets = [name]"
  proof -
    assume l: "length sets = 1"
    then obtain kv where "sets = [kv]" by (cases sets) auto
    with assms(2) show ?thesis by (simp add: draw_pool_def Let_def)
  qed
qed

lemma transition_12:
  assumes "current_set_name s = Some name" "map_of (music_sets s) name = Some tracks"
    "length tracks = 3" "current_state s = 1 \<or> current_state s = 2"
  shows "transition name r s =
    (Normal, s\<lparr>current_state := current_state s + 1,
               current_channel := Some (tracks ! nat (current_state s)),
               events := events s
                  @ [Print (if current_state s = 1 then ToState2 name else ToState3 name),
                     Print (PlayingSet name (current_state s + 1))]
                  @ (if current_channel s = None then [] else [Fadeout CROSSFADE_MS])
                  @ [Play (tracks ! nat (current_state s)) (- 1) CROSSFADE_MS]\<rparr>)"
proof -
  from assms(4) show ?thesis
  proof
    assume st: "current_state s = 1"
    let ?s1 = "emit (Print (ToState2 name)) (s\<lparr>current_state := 2\<rparr>)"
    have "play_current_state ?s1 = (Normal, ?s1\<lparr>current_channel := Some (tracks ! nat (current_state ?s1 - 1)),
               events := events ?s1 @ [Print (PlayingSet name (current_state ?s1))]
                  @ (if current_channel ?s1 = None then [] else [Fadeout CROSSFADE_MS])
                  @ [Play (tracks ! nat (current_state ?s1 - 1)) (- 1) CROSSFADE_MS]\<rparr>)"
      by (rule play_current_state_ok[where tracks = tracks]) (use assms in \<open>simp_all add: emit_def\<close>)
    with st show ?thesis by (simp add: transition_def emit_def)
  next
    assume st: "current_state s = 2"
    let ?s1 = "emit (Print (ToState3 name)) (s\<lparr>current_state := 3\<rparr>)"
    have "play_current_state ?s1 = (Normal, ?s1\<lparr>current_channel := Some (tracks ! nat (current_state ?s1 - 1)),
               events := events ?s1 @ [Print (PlayingSet name (current_state ?s1))]
                  @ (if current_channel ?s1 = None then [] else [Fadeout CROSSFADE_MS])
                  @ [Play (tracks ! nat (current_state ?s1 - 1)) (- 1) CROSSFADE_MS]\<rparr>)"
      by (rule play_current_state_ok[where tracks = tracks]) (use assms in \<open>simp_all add: emit_def\<close>)
    with st show ?thesis by (simp add: transition_def emit_def)
  qed
qed

lemma start_set_ok:
  assumes "map_of (music_sets s) new = Some tracks" "length tracks = 3"
  shows "start_set new s =
    (Normal, s\<lparr>current_set_name := Some new, current_state := 1,
               current_channel := Some (tracks ! 0),
               events := events s @ [Print (SwitchedToSet new), Print (PlayingSet new 1)]
                  @ (if current_channel s = None then [] else [Fadeout CROSSFADE_MS])
                  @ [Play (tracks ! 0) (- 1) CROSSFADE_MS]\<rparr>)"
proof -
  let ?s1 = "emit (Print (SwitchedToSet new)) (s\<lparr>current_set_name := Some new, current_state := 1\<rparr>)"
  have "play_current_state ?s1 = (Normal, ?s1\<lparr>current_channel := Some (tracks ! nat (current_state ?s1 - 1)),
             events := events ?s1 @ [Print (PlayingSet new (current_state ?s1))]
                @ (if current_channel ?s1 = None then [] else [Fadeout CROSSFADE_MS])
                @ [Play (tracks ! nat (current_state ?s1 - 1)) (- 1) CROSSFADE_MS]\<rparr>)"
    by (rule play_current_state_ok[where tracks = tracks]) (use assms in \<open>simp_all add: emit_def\<close>)
  then show ?thesis by (simp add: start_set_def emit_def)
qed

lemma transition_3:
  assumes "lib_ok (music_sets s)" "current_set_name s = Some name"
    "name \<in> set (map fst (music_sets s))" "current_state s = 3"
    "new = draw_pool (Some name) (music_sets s) ! (r mod length (draw_pool (Some name) (music_sets s)))"
  shows "\<exists>tracks. map_of (music_sets s) new = Some tracks \<and> length tracks = 3 \<and>
    transition name r s =
    (Normal, s\<lparr>current_set_name := Some new, current_state := 1,
               current_channel := Some (tracks ! 0),
               events := events s
                  @ [Print (FinishedSet name new), Print (SwitchedToSet new), Print (PlayingSet new 1)]
                  @ (if current_channel s = None then [] else [Fadeout CROSSFADE_MS])
                  @ [Play (tracks ! 0) (- 1) CROSSFADE_MS]\<rparr>)"
proof -
  let ?pool = "draw_pool (Some name) (music_sets s)"
  have ne: "?pool \<noteq> []" and sub: "set ?pool \<subseteq> set (map fst (music_sets s))"
    using draw_pool_props(1,2)[OF assms(1,3)] by simp_all
  from ne have "new \<in> set ?pool" unfolding assms(5) by simp
  with sub have "new \<in> set (map fst (music_sets s))" by blast
  from lib_ok_lookup[OF assms(1) this] obtain tracks
    where t: "map_of (music_sets s) new = Some tracks" "length tracks = 3" by blast
  let ?s1 = "emit (Print (FinishedSet name new)) s"
  have "start_set new ?s1 = (Normal, ?s1\<lparr>current_set_name := Some new, current_state := 1,
               current_channel := Some (tracks ! 0),
               events := events ?s1 @ [Print (SwitchedToSet new), Print (PlayingSet new 1)]
                  @ (if current_channel ?s1 = None then [] else [Fadeout CROSSFADE_MS])
                  @ [Play (tracks ! 0) (- 1) CROSSFADE_MS]\<rparr>)"
    by (rule start_set_ok) (use t in \<open>simp_all add: emit_def\<close>)
  moreover have "choose_random_set (Some name) r s = Inr new"
    using ne by (simp add: choose_random_set_def random_choice_def assms(5))
  ultimately have "transition name r s =
    (Normal, s\<lparr>current_set_name := Some new, current_state := 1,
               current_channel := Some (tracks ! 0),
               events := events s
                  @ [Print (FinishedSet name new), Print (SwitchedToSet new), Print (PlayingSet new 1)]
                  @ (if current_channel s = None then [] else [Fadeout CROSSFADE_MS])
                  @ [Play (tracks ! 0) (- 1) CROSSFADE_MS]\<rparr>)"
    using assms(4) by (simp add: transition_def emit_def)
  with t show ?thesis by blast
qed

lemma transition_other:
  assumes "current_set_name s = Some name" "map_of (music_sets s) name = Some tracks"
    "length tracks = 3" "current_state s \<noteq> 1" "current_state s \<noteq> 2" "current_state s \<noteq> 3"
  shows "transition name r s =
    (Normal, s\<lparr>current_state := 1,
               current_channel := Some (tracks ! 0),
               events := events s
                  @ [Print (PlayingSet name 1)]
                  @ (if current_channel s = None then [] else [Fadeout CROSSFADE_MS])
                  @ [Play (tracks ! 0) (- 1) CROSSFADE_MS]\<rparr>)"
proof -
  let ?s1 = "s\<lparr>current_state := 1\<rparr>"
  have "play_current_state ?s1 = (Normal, ?s1\<lparr>current_channel := Some (tracks ! nat (current_state ?s1 - 1)),
             events := events ?s1 @ [Print (PlayingSet name (current_state ?s1))]
                @ (if current_channel ?s1 = None then [] else [Fadeout CROSSFADE_MS])
                @ [Play (tracks ! nat (current_state ?s1 - 1)) (- 1) CROSSFADE_MS]\<rparr>)"
    by (rule play_current_state_ok[where tracks = tracks]) (use assms in \<open>simp_all\<close>)
  with assms(4-6) show ?thesis by (simp add: transition_def)
qed

text \<open>Every branch of the transition, under the invariant on the set name.\<close>

lemma transition_ok:
  assumes "set_inv s" "current_set_name s = Some name"
  shows "\<exists>s' tr sound. transition name r s = (Normal, s') \<and> engine_inv s' \<and>
           current_set_name s' \<noteq> None \<and> music_sets s' = music_sets s \<and>
           current_channel s' = Some sound \<and>
           events s' = events s @ tr @ [Play sound (- 1) CROSSFADE_MS] \<and>
           list_all transition_event tr"
proof -
  from assms have lib: "lib_ok (music_sets s)" and mem: "name \<in> set (map fst (music_sets s))"
    by (simp_all add: set_inv_def)
  from lib_ok_lookup[OF lib mem] obtain tracks
    where t: "map_of (music_sets s) name = Some tracks" "length tracks = 3" by blast
  consider (a) "current_state s = 1 \<or> current_state s = 2" | (b) "current_state s = 3"
    | (c) "current_state s \<noteq> 1" "current_state s \<noteq> 2" "current_state s \<noteq> 3" by blast
  then show ?thesis
  proof cases
    case a
    note eq = transition_12[OF assms(2) t a, of r]
    show ?thesis
      apply (rule exI, rule exI[where x = "[Print (if current_state s = 1 then ToState2 name else ToState3 name),
                     Print (PlayingSet name (current_state s + 1))]
                  @ (if current_channel s = None then [] else [Fadeout CROSSFADE_MS])"],
             rule exI[where x = "tracks ! nat (current_state s)"])
      apply (rule conjI, rule eq)
      using a lib mem assms(2) by (auto simp: engine_inv_def set_inv_def)
  next
    case b
    define new where "new = draw_pool (Some name) (music_sets s) ! (r mod length (draw_pool (Some name) (music_sets s)))"
    from transition_3[OF lib assms(2) mem b new_def, of ] obtain tr' where
      t': "map_of (music_sets s) new = Some tr'" and
      eq: "transition name r s =
    (Normal, s\<lparr>current_set_name := Some new, current_state := 1,
               current_channel := Some (tr' ! 0),
               events := events s
                  @ [Print (FinishedSet name new), Print (SwitchedToSet new), Print (PlayingSet new 1)]
                  @ (if current_channel s = None then [] else [Fadeout CROSSFADE_MS])
                  @ [Play (tr' ! 0) (- 1) CROSSFADE_MS]\<rparr>)" by blast
    from t' have "new \<in> set (map fst (music_sets s))"
      by (metis map_of_SomeD fst_conv image_eqI set_map)
    then show ?thesis
      apply -
      apply (rule exI, rule exI[where x = "[Print (FinishedSet name new), Print (SwitchedToSet new), Print (PlayingSet new 1)]
                  @ (if current_channel s = None then [] else [Fadeout CROSSFADE_MS])"],
             rule exI[where x = "tr' ! 0"])
      apply (rule conjI, rule eq)
      using lib by (auto simp: engine_inv_def set_inv_def)
  next
    case c
    note eq = transition_other[OF assms(2) t c, of r]
    show ?thesis
      apply (rule exI, rule exI[where x = "[Print (PlayingSet name 1)]
                  @ (if current_channel s = None then [] else [Fadeout CROSSFADE_MS])"],
             rule exI[where x = "tracks ! 0"])
      apply (rule conjI, rule eq)
      using lib mem assms(2) by (auto simp: engine_inv_def set_inv_def)
  qed
qed

lemma advance_state_None: "current_set_name s = None \<Longrightarrow> advance_state on_step r s = (Normal, s)"
  by (simp add: advance_state_def)

lemma advance_state_Some:
  assumes "current_set_name s = Some name" "transition name r s = (Normal, s')"
  shows "advance_state on_step r s =
           (notify_outcome on_step, s'\<lparr>events := events s' @ notify_events on_step\<rparr>)"
  using assms by (simp add: advance_state_def notify_eq)

lemma notify_events_all: "list_all notify_event (notify_events on_step)"
  by (simp add: notify_events_def split: option.splits cb_result.splits)

lemma advance_state_ok:
  assumes "set_inv s"
  shows "\<exists>s' tr. advance_state on_step r s =
             (if current_set_name s = None then Normal else notify_outcome on_step, s') \<and>
           set_inv s' \<and>
           (current_set_name s \<noteq> None \<longrightarrow> engine_inv s' \<and> current_set_name s' \<noteq> None) \<and>
           (current_set_name s = None \<longrightarrow> s' = s) \<and>
           music_sets s' = music_sets s \<and>
           events s' = events s @ tr \<and>
           list_all (\<lambda>e. transition_event e \<or> notify_event e) tr"
proof (cases "current_set_name s")
  case None
  with assms show ?thesis by (simp add: advance_state_None)
next
  case (Some name)
  from transition_ok[OF assms Some, of r] obtain s' tr sound where
    h: "transition name r s = (Normal, s')" "engine_inv s'" "current_set_name s' \<noteq> None"
       "music_sets s' = music_sets s" "events s' = events s @ tr @ [Play sound (- 1) CROSSFADE_MS]"
       "list_all transition_event tr" by blast
  have la: "list_all (\<lambda>e. transition_event e \<or> notify_event e) (tr @ [Play sound (- 1) CROSSFADE_MS] @ notify_events on_step)"
    using h(6) notify_events_all[of on_step] by (auto simp: list_all_iff)
  show ?thesis
    apply (rule exI[where x = "s'\<lparr>events := events s' @ notify_events on_step\<rparr>"],
           rule exI[where x = "tr @ [Play sound (- 1) CROSSFADE_MS] @ notify_events on_step"])
    using advance_state_Some[OF Some h(1), of on_step] h la Some
    by (auto simp: engine_inv_def set_inv_def)
qed

subsection \<open>The crossfade\<close>

text \<open>
  Claim C7.  \<^verbatim>\<open>play_loop_sound\<close> on an idle channel issues exactly one call, the
  \<^verbatim>\<open>play\<close> of the new sound with a fade-in of \<^verbatim>\<open>CROSSFADE_MS\<close>; on a busy channel it
  issues a \<^verbatim>\<open>fadeout\<close> of \<^verbatim>\<open>CROSSFADE_MS\<close> and then the same \<^verbatim>\<open>play\<close>.  The
  \<^verbatim>\<open>play\<close> is with \<^verbatim>\<open>loops=-1\<close> (repeat for ever), 250 ms is the fade length, and the
  new sound is the channel's sound afterwards.
\<close>

theorem C7_crossfade_to:
  "events (play_loop_sound sound s) =
     events s
       @ (if current_channel s = None then [] else [Fadeout 250])
       @ [Play sound (- 1) 250]
   \<and> current_channel (play_loop_sound sound s) = Some sound"
  by (simp add: events_play_loop_sound fields_play_loop_sound CROSSFADE_MS_def)

subsection \<open>Advancing within a set\<close>

text \<open>
  Claim C1.  In an engine state whose current set is in the library with its three tracks,
  \<^verbatim>\<open>advance_state\<close> from state 1 gives state 2 and from state 2 gives state 3; the
  set name and the library are unchanged, and the sound crossfaded to (the sound of the
  \<^verbatim>\<open>play\<close> call, and the channel's sound afterwards) is the track at index
  (new state - 1) of the current set.  The events are, in order: the transition message,
  the playing message, the fade-out if the channel was busy, the \<^verbatim>\<open>play\<close>, and the
  callback's events.  The call ends as the callback's call ends: normally, unless the
  callback raises an exception that \<^verbatim>\<open>except Exception\<close> does not catch, and then too
  the state is as said.
\<close>

theorem C1_advance_within_set:
  assumes "current_set_name s = Some name" "map_of (music_sets s) name = Some tracks"
    "length tracks = 3" "current_state s = 1 \<or> current_state s = 2"
  shows "fst (advance_state on_step r s) = notify_outcome on_step
    \<and> current_state (snd (advance_state on_step r s)) = current_state s + 1
    \<and> current_set_name (snd (advance_state on_step r s)) = Some name
    \<and> music_sets (snd (advance_state on_step r s)) = music_sets s
    \<and> current_channel (snd (advance_state on_step r s)) =
        Some (tracks ! nat (current_state (snd (advance_state on_step r s)) - 1))
    \<and> events (snd (advance_state on_step r s)) =
        events s
          @ [Print (if current_state s = 1 then ToState2 name else ToState3 name),
             Print (PlayingSet name (current_state s + 1))]
          @ (if current_channel s = None then [] else [Fadeout 250])
          @ [Play (tracks ! nat (current_state (snd (advance_state on_step r s)) - 1)) (- 1) 250]
          @ notify_events on_step"
proof -
  note t = transition_12[OF assms, of r]
  note a = advance_state_Some[OF assms(1) t, of on_step]
  show ?thesis unfolding a using assms(1) by (simp add: CROSSFADE_MS_def)
qed

theorem C1_witness:
  "current_set_name one_set = Some ''A''
   \<and> current_state one_set = 1
   \<and> fst (advance_state (Some Returns) 0 one_set) = Normal
   \<and> current_state (snd (advance_state (Some Returns) 0 one_set)) = 2
   \<and> current_set_name (snd (advance_state (Some Returns) 0 one_set)) = Some ''A''
   \<and> current_channel (snd (advance_state (Some Returns) 0 one_set)) = Some (Sound ''a2'')"
proof -
  have h1: "current_set_name one_set = Some ''A''" by (simp add: one_set_def)
  have h2: "map_of (music_sets one_set) ''A'' = Some [Sound ''a1'', Sound ''a2'', Sound ''a3'']"
    by (simp add: one_set_def)
  have h3: "length [Sound ''a1'', Sound ''a2'', Sound ''a3''] = 3" by simp
  have h4: "current_state one_set = 1 \<or> current_state one_set = 2" by (simp add: one_set_def)
  have h5: "current_state one_set = 1" by (simp add: one_set_def)
  from C1_advance_within_set[OF h1 h2 h3 h4, of "Some Returns" 0] h1 h5
  show ?thesis by (simp add: notify_outcome_def)
qed

subsection \<open>The step callback\<close>





subsection \<open>Switching sets\<close>

lemma advance_state_3:
  assumes "set_inv s" "current_set_name s = Some name" "current_state s = 3"
  shows "\<exists>tracks. map_of (music_sets s)
            (draw_pool (Some name) (music_sets s) ! (r mod length (draw_pool (Some name) (music_sets s))))
              = Some tracks \<and> length tracks = 3 \<and>
    advance_state on_step r s =
    (notify_outcome on_step, s\<lparr>current_set_name :=
                 Some (draw_pool (Some name) (music_sets s) ! (r mod length (draw_pool (Some name) (music_sets s)))),
               current_state := 1,
               current_channel := Some (tracks ! 0),
               events := events s
                  @ [Print (FinishedSet name
                       (draw_pool (Some name) (music_sets s) ! (r mod length (draw_pool (Some name) (music_sets s))))),
                     Print (SwitchedToSet
                       (draw_pool (Some name) (music_sets s) ! (r mod length (draw_pool (Some name) (music_sets s))))),
                     Print (PlayingSet
                       (draw_pool (Some name) (music_sets s) ! (r mod length (draw_pool (Some name) (music_sets s)))) 1)]
                  @ (if current_channel s = None then [] else [Fadeout CROSSFADE_MS])
                  @ [Play (tracks ! 0) (- 1) CROSSFADE_MS]
                  @ notify_events on_step\<rparr>)"
proof -
  from assms have lib: "lib_ok (music_sets s)" and mem: "name \<in> set (map fst (music_sets s))"
    by (simp_all add: set_inv_def)
  from transition_3[OF lib assms(2) mem assms(3) refl, of r] obtain tracks where
    t: "map_of (music_sets s)
            (draw_pool (Some name) (music_sets s) ! (r mod length (draw_pool (Some name) (music_sets s))))
              = Some tracks" "length tracks = 3"
    and eq: "transition name r s =
    (Normal, s\<lparr>current_set_name :=
                 Some (draw_pool (Some name) (music_sets s) ! (r mod length (draw_pool (Some name) (music_sets s)))),
               current_state := 1,
               current_channel := Some (tracks ! 0),
               events := events s
                  @ [Print (FinishedSet name
                       (draw_pool (Some name) (music_sets s) ! (r mod length (draw_pool (Some name) (music_sets s))))),
                     Print (SwitchedToSet
                       (draw_pool (Some name) (music_sets s) ! (r mod length (draw_pool (Some name) (music_sets s))))),
                     Print (PlayingSet
                       (draw_pool (Some name) (music_sets s) ! (r mod length (draw_pool (Some name) (music_sets s)))) 1)]
                  @ (if current_channel s = None then [] else [Fadeout CROSSFADE_MS])
                  @ [Play (tracks ! 0) (- 1) CROSSFADE_MS]\<rparr>)"
    by blast
  show ?thesis
    apply (rule exI[where x = tracks])
    using t advance_state_Some[OF assms(2) eq, of on_step] by simp
qed

text \<open>One press on a library of one set: the state goes round, the set stays.\<close>

lemma advance_state_one_set:
  assumes "engine_inv s" "current_set_name s = Some name" "length (music_sets s) = 1"
  shows "\<exists>s'. advance_state on_step r s = (notify_outcome on_step, s') \<and> engine_inv s' \<and>
           current_set_name s' = Some name \<and> music_sets s' = music_sets s \<and>
           current_state s' = current_state s mod 3 + 1"
proof -
  from assms(1) have si: "set_inv s" and st: "current_state s = 1 \<or> current_state s = 2 \<or> current_state s = 3"
    by (simp_all add: engine_inv_def)
  from si assms(2) have lib: "lib_ok (music_sets s)" and mem: "name \<in> set (map fst (music_sets s))"
    by (simp_all add: set_inv_def)
  from lib_ok_lookup[OF lib mem] obtain tracks
    where t: "map_of (music_sets s) name = Some tracks" "length tracks = 3" by blast
  show ?thesis
  proof (cases "current_state s = 3")
    case True
    have p: "draw_pool (Some name) (music_sets s) = [name]"
      by (rule draw_pool_props(5)[OF lib mem assms(3)])
    from advance_state_3[OF si assms(2) True, of r on_step] obtain tr where
      "advance_state on_step r s =
        (notify_outcome on_step, s\<lparr>current_set_name := Some name, current_state := 1,
               current_channel := Some (tr ! 0),
               events := events s
                  @ [Print (FinishedSet name name), Print (SwitchedToSet name), Print (PlayingSet name 1)]
                  @ (if current_channel s = None then [] else [Fadeout CROSSFADE_MS])
                  @ [Play (tr ! 0) (- 1) CROSSFADE_MS]
                  @ notify_events on_step\<rparr>)"
      unfolding p by auto
    then show ?thesis using True lib mem by (simp add: engine_inv_def set_inv_def)
  next
    case False
    with st have a: "current_state s = 1 \<or> current_state s = 2" by blast
    note eq = advance_state_Some[OF assms(2) transition_12[OF assms(2) t a, of r], of on_step]
    show ?thesis unfolding eq using a lib mem assms(2) by (auto simp: engine_inv_def set_inv_def)
  qed
qed

lemma advance_times_one_set:
  assumes "engine_inv s" "current_set_name s = Some name" "length (music_sets s) = 1"
  shows "current_set_name (snd (advance_times inputs s)) = Some name
    \<and> ((\<forall>i \<in> set inputs. notify_outcome (fst i) = Normal) \<longrightarrow>
          fst (advance_times inputs s) = Normal
          \<and> current_state (snd (advance_times inputs s)) =
                (current_state s - 1 + int (length inputs)) mod 3 + 1)"
  using assms
proof (induction inputs arbitrary: s)
  case Nil
  then show ?case by (auto simp: engine_inv_def)
next
  case (Cons x inputs)
  obtain on_step r where x: "x = (on_step, r)" by (cases x)
  from advance_state_one_set[OF Cons.prems, of on_step r] obtain s' where
    h: "advance_state on_step r s = (notify_outcome on_step, s')" "engine_inv s'"
       "current_set_name s' = Some name" "music_sets s' = music_sets s"
       "current_state s' = current_state s mod 3 + 1" by blast
  from h(4) Cons.prems(3) have l: "length (music_sets s') = 1" by simp
  note ih = Cons.IH[OF h(2) h(3) l]
  have m: "(current_state s mod 3 + 1 - 1 + int (length inputs)) mod 3
        = (current_state s - 1 + int (length (x # inputs))) mod 3"
    by (simp add: mod_simps)
  show ?case
  proof (cases "notify_outcome on_step")
    case Normal
    with ih m show ?thesis by (simp add: x h)
  next
    case (Raised e)
    with h(3) show ?thesis by (simp add: x h(1))
  qed
qed

text \<open>
  Claim C4.  From state 3 (current set in a well-formed library) \<^verbatim>\<open>advance_state\<close>
  ends in state 1 with the set \<^verbatim>\<open>random.choice\<close> picks from the draw pool, and plays
  that set's first track; the call ends as the callback's call ends (normally, unless the
  callback raises an exception that \<^verbatim>\<open>except Exception\<close> does not catch).  The pool is not empty and has no repetition, so each
  of its names is picked by exactly one value of the random index (the index being
  uniform is \<^verbatim>\<open>random.choice\<close>'s part).  With more than one set the pool is all the
  names but the current one, and the new set differs from the old; with exactly one set
  the new set is the old one, and any number of further calls keeps that set and, as long
  as no call is left by such an exception of the callback, goes round the states 1, 2, 3.
\<close>

theorem C4_set_switch:
  assumes "set_inv s" "current_set_name s = Some name" "current_state s = 3"
  shows "draw_pool (Some name) (music_sets s) \<noteq> []
    \<and> r mod length (draw_pool (Some name) (music_sets s)) < length (draw_pool (Some name) (music_sets s))
    \<and> (\<forall>m \<in> set (draw_pool (Some name) (music_sets s)).
          \<exists>!i. i < length (draw_pool (Some name) (music_sets s)) \<and>
                draw_pool (Some name) (music_sets s) ! i = m)
    \<and> fst (advance_state on_step r s) = notify_outcome on_step
    \<and> current_state (snd (advance_state on_step r s)) = 1
    \<and> current_set_name (snd (advance_state on_step r s)) =
          Some (draw_pool (Some name) (music_sets s) ! (r mod length (draw_pool (Some name) (music_sets s))))
    \<and> (\<exists>tracks. map_of (music_sets s)
            (draw_pool (Some name) (music_sets s) ! (r mod length (draw_pool (Some name) (music_sets s))))
              = Some tracks \<and>
            events (snd (advance_state on_step r s)) =
              events s
              @ [Print (FinishedSet name
                   (draw_pool (Some name) (music_sets s) ! (r mod length (draw_pool (Some name) (music_sets s))))),
                 Print (SwitchedToSet
                   (draw_pool (Some name) (music_sets s) ! (r mod length (draw_pool (Some name) (music_sets s))))),
                 Print (PlayingSet
                   (draw_pool (Some name) (music_sets s) ! (r mod length (draw_pool (Some name) (music_sets s)))) 1)]
              @ (if current_channel s = None then [] else [Fadeout 250])
              @ [Play (tracks ! 0) (- 1) 250]
              @ notify_events on_step)
    \<and> (length (music_sets s) > 1 \<longrightarrow>
          set (draw_pool (Some name) (music_sets s)) = set (map fst (music_sets s)) - {name}
          \<and> current_set_name (snd (advance_state on_step r s)) \<noteq> Some name)
    \<and> (length (music_sets s) = 1 \<longrightarrow>
          current_set_name (snd (advance_state on_step r s)) = Some name
          \<and> (\<forall>inputs. current_set_name (snd (advance_times inputs s)) = Some name
                \<and> ((\<forall>i \<in> set inputs. notify_outcome (fst i) = Normal) \<longrightarrow>
                      fst (advance_times inputs s) = Normal
                      \<and> current_state (snd (advance_times inputs s)) =
                            (2 + int (length inputs)) mod 3 + 1)))"
proof -
  let ?pool = "draw_pool (Some name) (music_sets s)"
  from assms have lib: "lib_ok (music_sets s)" and mem: "name \<in> set (map fst (music_sets s))"
    by (simp_all add: set_inv_def)
  note dp = draw_pool_props[OF lib mem]
  have ne: "?pool \<noteq> []" by (rule dp(1))
  then have lt: "r mod length ?pool < length ?pool" by simp
  have uniq: "\<forall>m \<in> set ?pool. \<exists>!i. i < length ?pool \<and> ?pool ! i = m"
    using dp(3) by (metis distinct_Ex1)
  from advance_state_3[OF assms, of r on_step] obtain tracks where
    t: "map_of (music_sets s) (?pool ! (r mod length ?pool)) = Some tracks" and
    eq: "advance_state on_step r s =
    (notify_outcome on_step, s\<lparr>current_set_name := Some (?pool ! (r mod length ?pool)),
               current_state := 1,
               current_channel := Some (tracks ! 0),
               events := events s
                  @ [Print (FinishedSet name (?pool ! (r mod length ?pool))),
                     Print (SwitchedToSet (?pool ! (r mod length ?pool))),
                     Print (PlayingSet (?pool ! (r mod length ?pool)) 1)]
                  @ (if current_channel s = None then [] else [Fadeout CROSSFADE_MS])
                  @ [Play (tracks ! 0) (- 1) CROSSFADE_MS]
                  @ notify_events on_step\<rparr>)"
    by blast
  have many: "length (music_sets s) > 1 \<longrightarrow>
          set ?pool = set (map fst (music_sets s)) - {name}
          \<and> current_set_name (snd (advance_state on_step r s)) \<noteq> Some name"
  proof
    assume l: "length (music_sets s) > 1"
    have s: "set ?pool = set (map fst (music_sets s)) - {name}" by (rule dp(4)[OF l])
    from lt have "?pool ! (r mod length ?pool) \<in> set ?pool" by simp
    with s have "?pool ! (r mod length ?pool) \<noteq> name" by blast
    with s show "set ?pool = set (map fst (music_sets s)) - {name}
          \<and> current_set_name (snd (advance_state on_step r s)) \<noteq> Some name"
      unfolding eq by simp
  qed
  have one: "length (music_sets s) = 1 \<longrightarrow>
          current_set_name (snd (advance_state on_step r s)) = Some name
          \<and> (\<forall>inputs. current_set_name (snd (advance_times inputs s)) = Some name
                \<and> ((\<forall>i \<in> set inputs. notify_outcome (fst i) = Normal) \<longrightarrow>
                      fst (advance_times inputs s) = Normal
                      \<and> current_state (snd (advance_times inputs s)) =
                            (2 + int (length inputs)) mod 3 + 1))"
  proof
    assume l: "length (music_sets s) = 1"
    have ei: "engine_inv s" using assms by (simp add: engine_inv_def)
    have "?pool = [name]" by (rule dp(5)[OF l])
    then have "current_set_name (snd (advance_state on_step r s)) = Some name"
      unfolding eq by simp
    moreover have "\<forall>inputs. current_set_name (snd (advance_times inputs s)) = Some name
                \<and> ((\<forall>i \<in> set inputs. notify_outcome (fst i) = Normal) \<longrightarrow>
                      fst (advance_times inputs s) = Normal
                      \<and> current_state (snd (advance_times inputs s)) =
                            (2 + int (length inputs)) mod 3 + 1)"
      using advance_times_one_set[OF ei assms(2) l] assms(3) by simp
    ultimately show "current_set_name (snd (advance_state on_step r s)) = Some name
          \<and> (\<forall>inputs. current_set_name (snd (advance_times inputs s)) = Some name
                \<and> ((\<forall>i \<in> set inputs. notify_outcome (fst i) = Normal) \<longrightarrow>
                      fst (advance_times inputs s) = Normal
                      \<and> current_state (snd (advance_times inputs s)) =
                            (2 + int (length inputs)) mod 3 + 1))"
      by blast
  qed
  have ev: "\<exists>tracks. map_of (music_sets s) (?pool ! (r mod length ?pool)) = Some tracks \<and>
            events (snd (advance_state on_step r s)) =
              events s
              @ [Print (FinishedSet name (?pool ! (r mod length ?pool))),
                 Print (SwitchedToSet (?pool ! (r mod length ?pool))),
                 Print (PlayingSet (?pool ! (r mod length ?pool)) 1)]
              @ (if current_channel s = None then [] else [Fadeout 250])
              @ [Play (tracks ! 0) (- 1) 250]
              @ notify_events on_step"
    apply (rule exI[where x = tracks])
    using t unfolding eq by (simp add: CROSSFADE_MS_def)
  have a: "fst (advance_state on_step r s) = notify_outcome on_step"
    and b: "current_state (snd (advance_state on_step r s)) = 1"
    and c: "current_set_name (snd (advance_state on_step r s)) = Some (?pool ! (r mod length ?pool))"
    unfolding eq by simp_all
  from ne lt uniq a b c ev many one show ?thesis by blast
qed

theorem C4_witness:
  "set_inv two_sets \<and> current_set_name two_sets = Some ''A'' \<and> current_state two_sets = 3
   \<and> length (music_sets two_sets) > 1
   \<and> fst (advance_state (Some Returns) 7 two_sets) = Normal
   \<and> current_state (snd (advance_state (Some Returns) 7 two_sets)) = 1
   \<and> current_set_name (snd (advance_state (Some Returns) 7 two_sets)) = Some ''B''
   \<and> set_inv one_set_3 \<and> current_set_name one_set_3 = Some ''A'' \<and> current_state one_set_3 = 3
   \<and> length (music_sets one_set_3) = 1
   \<and> current_set_name (snd (advance_state (Some Returns) 7 one_set_3)) = Some ''A''
   \<and> current_state (snd (advance_times [(None, 0), (None, 1), (None, 2), (None, 3)] one_set_3)) = 1"
proof -
  have a: "set_inv two_sets" "current_set_name two_sets = Some ''A''" "current_state two_sets = 3"
    and al: "length (music_sets two_sets) > 1"
    and ap: "draw_pool (Some ''A'') (music_sets two_sets) = [''B'']"
    by (simp_all add: set_inv_def lib_ok_def two_sets_def draw_pool_def)
  have b: "set_inv one_set_3" "current_set_name one_set_3 = Some ''A''" "current_state one_set_3 = 3"
    and bl: "length (music_sets one_set_3) = 1"
    by (simp_all add: set_inv_def lib_ok_def one_set_3_def one_set_def)
  note A = C4_set_switch[OF a, of 7 "Some Returns"]
  note B = C4_set_switch[OF b, of 7 "Some Returns"]
  have q: "\<forall>i \<in> set [(None :: cb_result option, 0 :: nat), (None, 1), (None, 2), (None, 3)].
             notify_outcome (fst i) = Normal"
    by (simp add: notify_outcome_def)
  from B bl have B1: "current_set_name (snd (advance_state (Some Returns) 7 one_set_3)) = Some ''A''"
    by blast
  from B bl q have B2: "current_state (snd (advance_times [(None, 0), (None, 1), (None, 2), (None, 3)] one_set_3))
              = (2 + int (length [(None :: cb_result option, 0 :: nat), (None, 1), (None, 2), (None, 3)])) mod 3 + 1"
    by blast
  from A have A1: "fst (advance_state (Some Returns) 7 two_sets) = Normal"
    and A2: "current_state (snd (advance_state (Some Returns) 7 two_sets)) = 1"
    and A3: "current_set_name (snd (advance_state (Some Returns) 7 two_sets)) = Some ''B''"
    unfolding ap by (simp_all add: notify_outcome_def)
  from a al b bl A1 A2 A3 B1 B2 show ?thesis by simp
qed

subsection \<open>Loading the library\<close>

lemma load_files_eq:
  "load_files folder_path es fs =
     (tracks_at folder_path (filter (loadable es) fs),
      map (\<lambda>f. Print (FailedToLoad (path_join folder_path f))) (filter (\<lambda>f. \<not> loadable es f) fs))"
  by (induction fs) (simp_all add: tracks_at_def Let_def)

lemma loaded_nonempty: "length (loaded es) = 3 \<Longrightarrow> filter is_audio (listdir es) \<noteq> []"
  by (auto simp: loaded_def selected_def)

lemma scan_folder_eq:
  "scan_folder sets_path root folder acc =
     (if accepted root folder
      then AList.update folder
             (tracks_at (path_join sets_path folder) (loaded (subdir root folder))) (fst acc)
      else fst acc,
      snd acc @ folder_events sets_path root folder)"
proof (cases "isdir root folder \<and> filter is_audio (listdir (subdir root folder)) \<noteq> []")
  case True
  then show ?thesis
    by (simp add: scan_folder_def Let_def load_files_eq accepted_def folder_events_def
        loaded_def selected_def tracks_at_def)
next
  case False
  then have "\<not> accepted root folder" using loaded_nonempty[of "subdir root folder"]
    by (auto simp: accepted_def)
  with False show ?thesis
    by (auto simp: scan_folder_def Let_def folder_events_def)
qed

lemma scan_folders_events:
  "snd (scan_folders sets_path root fs acc) = snd acc @ concat (map (folder_events sets_path root) fs)"
  by (induction fs arbitrary: acc) (simp_all add: scan_folder_eq)

lemma scan_folders_lookup:
  "map_of (fst (scan_folders sets_path root fs acc)) folder =
     (if folder \<in> set fs \<and> accepted root folder
      then Some (tracks_at (path_join sets_path folder) (loaded (subdir root folder)))
      else map_of (fst acc) folder)"
proof (induction fs arbitrary: acc)
  case Nil
  then show ?case by simp
next
  case (Cons f fs)
  show ?case
    by (simp add: Cons.IH scan_folder_eq update_conv')
qed

lemma scan_folders_distinct:
  "distinct (map fst (fst acc)) \<Longrightarrow> distinct (map fst (fst (scan_folders sets_path root fs acc)))"
  by (induction fs arbitrary: acc) (simp_all add: scan_folder_eq distinct_update)

lemma length_tracks_at: "length (tracks_at p fs) = length fs"
  by (simp add: tracks_at_def)

lemma load_sets_lookup:
  assumes "load_sets w = Some (lib, evs)"
  shows "\<exists>root. sets_root w = Some (Dir root) \<and>
     (\<forall>folder. map_of lib folder =
       (if folder \<in> set (listdir root) \<and> accepted root folder
        then Some (tracks_at (path_join (SETS_PATH w) folder) (loaded (subdir root folder)))
        else None)) \<and>
     evs = concat (map (folder_events (SETS_PATH w) root) (listdir root)) \<and>
     distinct (map fst lib)"
proof -
  from assms obtain root where r: "sets_root w = Some (Dir root)"
    by (auto simp: load_sets_def split: option.splits node.splits)
  with assms have eq: "scan_folders (SETS_PATH w) root (listdir root) ([], []) = (lib, evs)"
    by (simp add: load_sets_def)
  have "\<forall>folder. map_of lib folder =
       (if folder \<in> set (listdir root) \<and> accepted root folder
        then Some (tracks_at (path_join (SETS_PATH w) folder) (loaded (subdir root folder)))
        else None)"
    using scan_folders_lookup[of "SETS_PATH w" root "listdir root" "([], [])"] eq by simp
  moreover have "evs = concat (map (folder_events (SETS_PATH w) root) (listdir root))"
    using scan_folders_events[of "SETS_PATH w" root "listdir root" "([], [])"] eq by simp
  moreover have "distinct (map fst lib)"
    using scan_folders_distinct[of "([], [])" "SETS_PATH w" root "listdir root"] eq by simp
  ultimately show ?thesis using r by blast
qed

lemma load_sets_lib_ok:
  assumes "load_sets w = Some (lib, evs)" "lib \<noteq> []"
  shows "lib_ok lib"
proof -
  from load_sets_lookup[OF assms(1)] obtain root where
    l: "\<And>folder. map_of lib folder =
       (if folder \<in> set (listdir root) \<and> accepted root folder
        then Some (tracks_at (path_join (SETS_PATH w) folder) (loaded (subdir root folder)))
        else None)" and d: "distinct (map fst lib)" by blast
  have "length (snd kv) = 3" if "kv \<in> set lib" for kv
  proof -
    from that d have "map_of lib (fst kv) = Some (snd kv)" by simp
    then show ?thesis unfolding l
      using length_tracks_at[of "path_join (SETS_PATH w) (fst kv)" "loaded (subdir root (fst kv))"]
      by (auto simp: accepted_def split: if_splits)
  qed
  with d assms(2) show ?thesis by (simp add: lib_ok_def list_all_iff)
qed

lemma load_events_all:
  assumes "load_sets w = Some (lib, evs)"
  shows "list_all load_event evs"
proof -
  from load_sets_lookup[OF assms] obtain root where
    e: "evs = concat (map (folder_events (SETS_PATH w) root) (listdir root))" by blast
  have "list_all load_event (folder_events sp root f)" for sp f
    by (simp add: folder_events_def list_all_iff)
  then show ?thesis unfolding e by (auto simp: list_all_iff)
qed

lemma load_demo_world:
  "load_sets demo_world =
     Some (demo_sets, [Print (FailedToLoad ''sets/C/c2.wav''), Print (SkippingSet ''C'' 2)])"
  by code_simp

lemma map_of_dir:
  assumes "map_of root folder = Some (Dir es)"
  shows "folder \<in> set (listdir root)" "isdir root folder" "subdir root folder = es"
  using assms by (auto simp: listdir_def isdir_def subdir_def dest: map_of_SomeD intro: rev_image_eqI)

lemma length_loaded:
  "length (loaded es) \<le> 3"
  "length (loaded es) \<le> length (valid_files es)"
  "(length (loaded es) = 3) = (length (selected es) = 3 \<and> list_all (loadable es) (selected es))"
  "list_all (loadable es) (selected es) \<Longrightarrow> loaded es = selected es"
proof -
  have l3: "length (selected es) \<le> 3" by (simp add: selected_def)
  have le: "length (loaded es) \<le> length (selected es)" by (simp add: loaded_def)
  from l3 le show "length (loaded es) \<le> 3" by simp
  let ?xs = "sort (filter is_audio (listdir es))"
  have "length (filter (loadable es) (take 3 ?xs)) \<le> length (filter (loadable es) ?xs)"
    using append_take_drop_id[of 3 ?xs] by (metis filter_append le_add1 length_append)
  also have "filter (loadable es) ?xs = sort (filter (loadable es) (filter is_audio (listdir es)))"
    by (simp add: filter_sort)
  also have "length \<dots> = length (valid_files es)"
    by (simp add: valid_files_def conj_commute)
  finally show "length (loaded es) \<le> length (valid_files es)"
    by (simp add: loaded_def selected_def)
  show "list_all (loadable es) (selected es) \<Longrightarrow> loaded es = selected es"
    by (simp add: loaded_def list_all_iff)
  show "(length (loaded es) = 3) = (length (selected es) = 3 \<and> list_all (loadable es) (selected es))"
  proof
    assume a: "length (loaded es) = 3"
    with l3 le have "length (selected es) = 3" by simp
    with a have "length (filter (loadable es) (selected es)) = length (selected es)"
      by (simp add: loaded_def)
    then have "list_all (loadable es) (selected es)"
      by (metis filter_id_conv length_filter_less less_irrefl list_all_iff)
    with \<open>length (selected es) = 3\<close> show "length (selected es) = 3 \<and> list_all (loadable es) (selected es)"
      by simp
  next
    assume "length (selected es) = 3 \<and> list_all (loadable es) (selected es)"
    then show "length (loaded es) = 3" by (simp add: loaded_def list_all_iff)
  qed
qed

text \<open>
  Claim C2, as amended.  For a directory of the root: the files selected are the first
  three (at most) of the audio files sorted by name.  If there are three and each of them
  loads, the library has a set under the directory's name whose tracks are these three
  files in that order; otherwise it has no set under that name.  In particular a directory
  with fewer than three loadable audio files gives no set.  (Three loadable audio files
  are not enough: they must be the first three by name.)
\<close>

theorem C2_sets_loaded:
  assumes "load_sets w = Some (lib, evs)" "sets_root w = Some (Dir root)"
    "map_of root folder = Some (Dir es)"
  shows "selected es = take 3 (sort (filter is_audio (listdir es)))
    \<and> sorted (selected es)
    \<and> (length (selected es) = 3 \<and> list_all (loadable es) (selected es) \<longrightarrow>
          map_of lib folder = Some (tracks_at (path_join (SETS_PATH w) folder) (selected es))
          \<and> length (tracks_at (path_join (SETS_PATH w) folder) (selected es)) = 3)
    \<and> (\<not> (length (selected es) = 3 \<and> list_all (loadable es) (selected es)) \<longrightarrow>
          map_of lib folder = None)
    \<and> (length (valid_files es) < 3 \<longrightarrow> map_of lib folder = None)"
proof -
  from load_sets_lookup[OF assms(1)] assms(2) have
    l: "map_of lib folder =
       (if folder \<in> set (listdir root) \<and> accepted root folder
        then Some (tracks_at (path_join (SETS_PATH w) folder) (loaded (subdir root folder)))
        else None)" by auto
  note d = map_of_dir[OF assms(3)]
  have acc: "accepted root folder = (length (selected es) = 3 \<and> list_all (loadable es) (selected es))"
    using d length_loaded(3)[of es] by (simp add: accepted_def)
  have l': "map_of lib folder =
       (if length (selected es) = 3 \<and> list_all (loadable es) (selected es)
        then Some (tracks_at (path_join (SETS_PATH w) folder) (selected es)) else None)"
    unfolding l using d acc length_loaded(4)[of es] by simp
  have s: "sorted (selected es)" by (simp add: selected_def sorted_wrt_take)
  have v: "length (valid_files es) < 3 \<longrightarrow> map_of lib folder = None"
    using length_loaded(2,3)[of es] l' by auto
  from s v l' show ?thesis by (simp add: selected_def length_tracks_at)
qed

theorem C2_witness:
  "load_sets demo_world = Some (demo_sets, [Print (FailedToLoad ''sets/C/c2.wav''), Print (SkippingSet ''C'' 2)])
   \<and> sets_root demo_world = Some (Dir demo_root)
   \<and> map_of demo_root ''A'' = Some (Dir [(''3.wav'', File True), (''cover.png'', File True),
                   (''1.wav'', File True), (''4.wav'', File True), (''2.OGG'', File True)])
   \<and> map_of demo_sets ''A'' = Some [Sound ''sets/A/1.wav'', Sound ''sets/A/2.OGG'', Sound ''sets/A/3.wav'']
   \<and> map_of demo_root ''C'' = Some (Dir [(''c1.wav'', File True), (''c2.wav'', File False), (''c3.wav'', File True)])
   \<and> map_of demo_sets ''C'' = None"
proof -
  let ?A = "[(''3.wav'', File True), (''cover.png'', File True),
                   (''1.wav'', File True), (''4.wav'', File True), (''2.OGG'', File True)]"
  let ?C = "[(''c1.wav'', File True), (''c2.wav'', File False), (''c3.wav'', File True)]"
  have r: "sets_root demo_world = Some (Dir demo_root)" by (simp add: demo_world_def)
  have a: "map_of demo_root ''A'' = Some (Dir ?A)" by (simp add: demo_root_def)
  have c: "map_of demo_root ''C'' = Some (Dir ?C)" by (simp add: demo_root_def)
  have sa: "length (selected ?A) = 3" by code_simp
  have la: "list_all (loadable ?A) (selected ?A)" by code_simp
  have ta: "tracks_at (path_join (SETS_PATH demo_world) ''A'') (selected ?A)
            = [Sound ''sets/A/1.wav'', Sound ''sets/A/2.OGG'', Sound ''sets/A/3.wav'']" by code_simp
  have lc: "\<not> list_all (loadable ?C) (selected ?C)" by code_simp
  from C2_sets_loaded[OF load_demo_world r a] sa la
  have "map_of demo_sets ''A'' = Some (tracks_at (path_join (SETS_PATH demo_world) ''A'') (selected ?A))"
    by blast
  then have 1: "map_of demo_sets ''A'' = Some [Sound ''sets/A/1.wav'', Sound ''sets/A/2.OGG'', Sound ''sets/A/3.wav'']"
    unfolding ta .
  from C2_sets_loaded[OF load_demo_world r c] lc
  have 2: "map_of demo_sets ''C'' = None" by blast
  from load_demo_world r a c 1 2 show ?thesis by blast
qed

theorem C2_counterexample:
  "sets_root bad_first_world = Some (Dir [(''A'', Dir bad_first)])
   \<and> valid_files bad_first = [''b.wav'', ''c.wav'', ''d.wav'']
   \<and> load_sets bad_first_world =
        Some ([], [Print (FailedToLoad ''sets/A/a.wav''), Print (SkippingSet ''A'' 2)])"
  by code_simp

lemma skipping_in_folder_events:
  "Print (SkippingSet folder n) \<in> set (folder_events sets_path root g) \<longleftrightarrow>
     g = folder \<and> isdir root folder \<and> filter is_audio (listdir (subdir root folder)) \<noteq> []
     \<and> length (loaded (subdir root folder)) \<noteq> 3 \<and> n = length (loaded (subdir root folder))"
  by (auto simp: folder_events_def)

text \<open>
  Claim C9, as amended.  For a directory of the root that holds at least one audio file
  (by extension) and is not accepted, the message ``Skipping set ...'' is printed with
  the number of sounds loaded from the (at most three) files selected, a number that is
  not 3 and is at most the number of loadable audio files of the directory.  A directory
  with no audio file is not accepted either, and no such message is printed for it.
\<close>

theorem C9_skip_warning:
  assumes "load_sets w = Some (lib, evs)" "sets_root w = Some (Dir root)"
    "map_of root folder = Some (Dir es)"
  shows "(filter is_audio (listdir es) \<noteq> [] \<and> map_of lib folder = None \<longrightarrow>
            Print (SkippingSet folder (length (loaded es))) \<in> set evs
            \<and> length (loaded es) \<noteq> 3)
    \<and> (filter is_audio (listdir es) = [] \<longrightarrow>
            map_of lib folder = None \<and> (\<forall>n. Print (SkippingSet folder n) \<notin> set evs))
    \<and> length (loaded es) \<le> length (valid_files es)"
proof -
  from load_sets_lookup[OF assms(1)] assms(2) have
    l: "map_of lib folder =
       (if folder \<in> set (listdir root) \<and> accepted root folder
        then Some (tracks_at (path_join (SETS_PATH w) folder) (loaded (subdir root folder)))
        else None)"
    and e: "evs = concat (map (folder_events (SETS_PATH w) root) (listdir root))" by auto
  note d = map_of_dir[OF assms(3)]
  have mem: "Print (SkippingSet folder n) \<in> set evs \<longleftrightarrow>
      filter is_audio (listdir es) \<noteq> [] \<and> length (loaded es) \<noteq> 3 \<and> n = length (loaded es)" for n
    unfolding e using d by (auto simp: skipping_in_folder_events)
  have none: "map_of lib folder = None \<longleftrightarrow> length (loaded es) \<noteq> 3"
    unfolding l using d by (simp add: accepted_def)
  have 1: "filter is_audio (listdir es) \<noteq> [] \<and> map_of lib folder = None \<longrightarrow>
            Print (SkippingSet folder (length (loaded es))) \<in> set evs \<and> length (loaded es) \<noteq> 3"
    using mem none by simp
  have 2: "filter is_audio (listdir es) = [] \<longrightarrow>
            map_of lib folder = None \<and> (\<forall>n. Print (SkippingSet folder n) \<notin> set evs)"
    using mem none loaded_nonempty[of es] by auto
  from 1 2 length_loaded(2)[of es] show ?thesis by blast
qed

theorem C9_witness:
  "load_sets demo_world = Some (demo_sets, [Print (FailedToLoad ''sets/C/c2.wav''), Print (SkippingSet ''C'' 2)])
   \<and> sets_root demo_world = Some (Dir demo_root)
   \<and> map_of demo_root ''C'' = Some (Dir [(''c1.wav'', File True), (''c2.wav'', File False), (''c3.wav'', File True)])
   \<and> map_of demo_sets ''C'' = None
   \<and> Print (SkippingSet ''C'' 2) \<in> set [Print (FailedToLoad ''sets/C/c2.wav''), Print (SkippingSet ''C'' 2)]"
proof -
  let ?C = "[(''c1.wav'', File True), (''c2.wav'', File False), (''c3.wav'', File True)]"
  have r: "sets_root demo_world = Some (Dir demo_root)" by (simp add: demo_world_def)
  have c: "map_of demo_root ''C'' = Some (Dir ?C)" by (simp add: demo_root_def)
  have f: "filter is_audio (listdir ?C) \<noteq> []" by code_simp
  have n: "map_of demo_sets ''C'' = None" by (simp add: demo_sets_def)
  have k: "length (loaded ?C) = 2" by code_simp
  from C9_skip_warning[OF load_demo_world r c] f n
  have "Print (SkippingSet ''C'' (length (loaded ?C)))
          \<in> set [Print (FailedToLoad ''sets/C/c2.wav''), Print (SkippingSet ''C'' 2)]"
    by blast
  then have "Print (SkippingSet ''C'' 2)
          \<in> set [Print (FailedToLoad ''sets/C/c2.wav''), Print (SkippingSet ''C'' 2)]"
    unfolding k .
  with load_demo_world r c n show ?thesis by blast
qed

text \<open>
  The directory \<^verbatim>\<open>notes\<close> of the demonstration root is scanned and not accepted, and
  the only messages of the scan are about the directory \<^verbatim>\<open>C\<close>: none says that
  \<^verbatim>\<open>notes\<close> is skipped.
\<close>

theorem C9_counterexample:
  "sets_root demo_world = Some (Dir demo_root)
   \<and> isdir demo_root ''notes''
   \<and> load_sets demo_world =
        Some (demo_sets, [Print (FailedToLoad ''sets/C/c2.wav''), Print (SkippingSet ''C'' 2)])
   \<and> map_of demo_sets ''notes'' = None
   \<and> filter (skip_warning_for ''notes'')
         [Print (FailedToLoad ''sets/C/c2.wav''), Print (SkippingSet ''C'' 2)] = []"
  by code_simp

lemma load_sets_None: "load_sets w = None \<longleftrightarrow> \<not> root_is_dir w"
  by (simp add: load_sets_def root_is_dir_def split: option.splits node.splits)

lemma startup_events_quiet: "list_all (\<lambda>e. \<not> activity e) (startup_events w k)"
  by (simp add: startup_events_def)

lemma load_event_quiet: "list_all load_event evs \<Longrightarrow> list_all (\<lambda>e. \<not> activity e) evs"
proof -
  have "load_event e \<Longrightarrow> \<not> activity e" for e
    by (induction e rule: load_event.induct) simp_all
  then show "list_all load_event evs \<Longrightarrow> list_all (\<lambda>e. \<not> activity e) evs"
    by (auto simp: list_all_iff)
qed

text \<open>
  Claim C5.  When \<^verbatim>\<open>SETS_PATH\<close> is not a directory, \<^verbatim>\<open>run_engine\<close> returns after
  the start-up messages and the message that the folder was not found.  When the scan
  gives no set, it returns after the start-up messages, the messages of the scan and the
  message that no valid set was found.  In both cases no event of the run is a call on
  the channel (\<^verbatim>\<open>play\<close>, \<^verbatim>\<open>fadeout\<close>), a call of the callback, or an event of the main
  loop (sampling the stop event or the key, calling \<^verbatim>\<open>advance_state\<close>, sleeping),
  whatever the samples offered to the loop.
\<close>

theorem C5_startup_failure:
  "(\<not> root_is_dir w \<longrightarrow>
      run_engine w trigger_key on_step stop_event rand0 polls =
        (Returned, startup_events w trigger_key @ [Print (SetsFolderNotFound (SETS_PATH w))]))
   \<and> (\<forall>evs. load_sets w = Some ([], evs) \<longrightarrow>
      run_engine w trigger_key on_step stop_event rand0 polls =
        (Returned, startup_events w trigger_key @ evs @ [Print NoValidSets]))
   \<and> (\<not> root_is_dir w \<or> (\<exists>evs. load_sets w = Some ([], evs)) \<longrightarrow>
      fst (run_engine w trigger_key on_step stop_event rand0 polls) = Returned
      \<and> list_all (\<lambda>e. \<not> activity e) (snd (run_engine w trigger_key on_step stop_event rand0 polls)))"
proof -
  have 1: "run_engine w trigger_key on_step stop_event rand0 polls =
        (Returned, startup_events w trigger_key @ [Print (SetsFolderNotFound (SETS_PATH w))])"
    if "\<not> root_is_dir w"
    using that load_sets_None[of w] by (simp add: run_engine_def)
  have 2: "run_engine w trigger_key on_step stop_event rand0 polls =
        (Returned, startup_events w trigger_key @ evs @ [Print NoValidSets])"
    if "load_sets w = Some ([], evs)" for evs
    using that by (simp add: run_engine_def)
  have 3: "fst (run_engine w trigger_key on_step stop_event rand0 polls) = Returned
      \<and> list_all (\<lambda>e. \<not> activity e) (snd (run_engine w trigger_key on_step stop_event rand0 polls))"
    if "\<not> root_is_dir w \<or> (\<exists>evs. load_sets w = Some ([], evs))"
    using that
  proof
    assume "\<not> root_is_dir w"
    from 1[OF this] startup_events_quiet[of w trigger_key] show ?thesis by simp
  next
    assume "\<exists>evs. load_sets w = Some ([], evs)"
    then obtain evs where e: "load_sets w = Some ([], evs)" by blast
    from 2[OF e] startup_events_quiet[of w trigger_key] load_event_quiet[OF load_events_all[OF e]]
    show ?thesis by simp
  qed
  from 1 2 3 show ?thesis by blast
qed

theorem C5_witness:
  "\<not> root_is_dir missing_world
   \<and> run_engine missing_world ''r'' True True 0 [\<lparr>stop_is_set = False, is_pressed = True, rand = 0, step = Returns, interrupt = False\<rparr>]
         = (Returned, [Print EngineStarted, Print (TriggerKey ''r''), Print (SetsFolderNotFound ''sets'')])
   \<and> load_sets bad_first_world = Some ([], [Print (FailedToLoad ''sets/A/a.wav''), Print (SkippingSet ''A'' 2)])
   \<and> run_engine bad_first_world ''r'' True True 0 [\<lparr>stop_is_set = False, is_pressed = True, rand = 0, step = Returns, interrupt = False\<rparr>]
         = (Returned, [SetEnvDefault, MixerInit, Print EngineStarted, Print (TriggerKey ''r''),
                       Print (FailedToLoad ''sets/A/a.wav''), Print (SkippingSet ''A'' 2), Print NoValidSets])"
proof -
  let ?polls = "[\<lparr>stop_is_set = False, is_pressed = True, rand = 0, step = Returns, interrupt = False\<rparr>]"
  have m: "\<not> root_is_dir missing_world" by (simp add: root_is_dir_def missing_world_def)
  have b: "load_sets bad_first_world = Some ([], [Print (FailedToLoad ''sets/A/a.wav''), Print (SkippingSet ''A'' 2)])"
    by code_simp
  have s1: "startup_events missing_world ''r'' = [Print EngineStarted, Print (TriggerKey ''r'')]"
    by code_simp
  have s2: "startup_events bad_first_world ''r'' = [SetEnvDefault, MixerInit, Print EngineStarted, Print (TriggerKey ''r'')]"
    by code_simp
  have p1: "SETS_PATH missing_world = ''sets''" by (simp add: missing_world_def)
  from C5_startup_failure[of missing_world "''r''" True True 0 ?polls] m
  have 1: "run_engine missing_world ''r'' True True 0 ?polls
         = (Returned, startup_events missing_world ''r'' @ [Print (SetsFolderNotFound (SETS_PATH missing_world))])"
    by blast
  from C5_startup_failure[of bad_first_world "''r''" True True 0 ?polls] b
  have 2: "run_engine bad_first_world ''r'' True True 0 ?polls
         = (Returned, startup_events bad_first_world ''r''
              @ [Print (FailedToLoad ''sets/A/a.wav''), Print (SkippingSet ''A'' 2)] @ [Print NoValidSets])"
    by blast
  from m b 1 2 show ?thesis unfolding s1 s2 p1 by simp
qed

subsection \<open>The main loop\<close>

lemma main_loop_Cons:
  "main_loop on_step stop_event (p # ps) key_held s =
     (if stop_event \<and> stop_is_set p then (Break, emit (IsSet True) s)
      else
        let s2 = emit (IsPressed (is_pressed p)) (if stop_event then emit (IsSet False) s else s)
        in case (if is_pressed p \<and> \<not> key_held
                 then advance_state (if on_step then Some (step p) else None) (rand p)
                        (emit AdvanceCall s2)
                 else (Normal, s2)) of
             (Raised e, s3) \<Rightarrow>
               (if e = Uncaught KeyboardInterrupt then Interrupted else Propagated e, s3)
           | (Normal, s3) \<Rightarrow>
               if interrupt p then (Interrupted, emit (Sleep 20) s3)
               else main_loop on_step stop_event ps (is_pressed p) (emit (Sleep 20) s3))"
  by (auto simp: Let_def split: prod.splits outcome.splits)

lemma play_current_state_appends:
  "\<exists>tr. events (snd (play_current_state s)) = events s @ tr \<and> list_all (\<lambda>e. \<not> loop_event e) tr"
  by (auto simp: play_current_state_def play_loop_sound_def emit_def Let_def
      split: option.splits)

lemma transition_appends:
  "\<exists>tr. events (snd (transition name r s)) = events s @ tr \<and> list_all (\<lambda>e. \<not> loop_event e) tr"
proof -
  have a: "\<exists>tr. events (snd (play_current_state (emit (Print m) s'))) = events s' @ tr
            \<and> list_all (\<lambda>e. \<not> loop_event e) tr" for m s'
  proof -
    from play_current_state_appends[of "emit (Print m) s'"] obtain tr where
      "events (snd (play_current_state (emit (Print m) s'))) = events (emit (Print m) s') @ tr"
      "list_all (\<lambda>e. \<not> loop_event e) tr" by blast
    then show ?thesis by (intro exI[where x = "Print m # tr"]) (simp add: events_emit)
  qed
  consider (one) "current_state s = 1" | (two) "current_state s \<noteq> 1" "current_state s = 2"
    | (three) "current_state s \<noteq> 1" "current_state s \<noteq> 2" "current_state s = 3"
    | (other) "current_state s \<noteq> 1" "current_state s \<noteq> 2" "current_state s \<noteq> 3" by blast
  then show ?thesis
  proof cases
    case one
    with a[of "ToState2 name" "s\<lparr>current_state := 2\<rparr>"] show ?thesis by (simp add: transition_def)
  next
    case two
    with a[of "ToState3 name" "s\<lparr>current_state := 3\<rparr>"] show ?thesis by (simp add: transition_def)
  next
    case three
    show ?thesis
    proof (cases "choose_random_set (Some name) r s")
      case (Inl e)
      with three show ?thesis by (simp add: transition_def)
    next
      case (Inr new)
      from a[of "SwitchedToSet new" "(emit (Print (FinishedSet name new)) s)\<lparr>current_set_name := Some new, current_state := 1\<rparr>"]
      obtain tr where "events (snd (start_set new (emit (Print (FinishedSet name new)) s)))
           = events s @ Print (FinishedSet name new) # tr" "list_all (\<lambda>e. \<not> loop_event e) tr"
        by (auto simp: start_set_def events_emit)
      with three Inr show ?thesis
        by (intro exI[where x = "Print (FinishedSet name new) # tr"]) (simp add: transition_def)
    qed
  next
    case other
    with play_current_state_appends[of "s\<lparr>current_state := 1\<rparr>"] show ?thesis
      by (simp add: transition_def)
  qed
qed

lemma advance_state_appends:
  "\<exists>tr. events (snd (advance_state on_step r s)) = events s @ tr \<and> list_all (\<lambda>e. \<not> loop_event e) tr"
proof (cases "current_set_name s")
  case None
  then show ?thesis by (simp add: advance_state_def)
next
  case (Some name)
  from transition_appends[of name r s] obtain tr where
    t: "events (snd (transition name r s)) = events s @ tr" "list_all (\<lambda>e. \<not> loop_event e) tr"
    by blast
  obtain oc s' where e: "transition name r s = (oc, s')" by (cases "transition name r s")
  show ?thesis
  proof (cases oc)
    case Normal
    have "list_all (\<lambda>e. \<not> loop_event e) (notify_events on_step)"
      by (simp add: notify_events_def split: option.splits cb_result.splits)
    with t e Normal Some show ?thesis
      by (intro exI[where x = "tr @ notify_events on_step"]) (simp add: advance_state_def notify_eq)
  next
    case (Raised x)
    with t e Some show ?thesis by (intro exI[where x = tr]) (simp add: advance_state_def)
  qed
qed

lemma samples_append: "samples (xs @ ys) = samples xs @ samples ys"
  by (induction xs rule: samples.induct) simp_all

lemma quiet_no_keys:
  assumes "list_all (\<lambda>e. \<not> loop_event e) tr"
  shows "samples tr = []" "filter key_event tr = []" "count_list tr AdvanceCall = 0"
proof -
  have k: "key_event e \<Longrightarrow> loop_event e" for e by (cases e) simp_all
  from assms show "samples tr = []" by (induction tr rule: samples.induct) simp_all
  from assms k show "filter key_event tr = []" by (auto simp: list_all_iff filter_empty_conv)
  from assms show "count_list tr AdvanceCall = 0" by (induction tr) auto
qed

lemma rising_edges_count: "count_list (edge_trace held bs) AdvanceCall = rising_edges held bs"
  by (induction bs arbitrary: held) simp_all

lemma count_list_filter_key: "count_list (filter key_event tr) AdvanceCall = count_list tr AdvanceCall"
  by (induction tr) auto

lemma main_loop_key_trace:
  "\<exists>tr. events (snd (main_loop on_step stop_event polls key_held s)) = events s @ tr
      \<and> samples tr = map is_pressed (take (length (samples tr)) polls)
      \<and> filter key_event tr = edge_trace key_held (samples tr)"
proof (induction polls arbitrary: key_held s)
  case Nil
  show ?case by simp
next
  case (Cons p ps)
  show ?case
  proof (cases "stop_event \<and> stop_is_set p")
    case True
    then show ?thesis
      by (intro exI[where x = "[IsSet True]"]) (simp add: main_loop_Cons events_emit del: main_loop.simps)
  next
    case False
    define pre where "pre = (if stop_event then [IsSet False] else []) @ [IsPressed (is_pressed p)]"
    define s2 where "s2 = emit (IsPressed (is_pressed p)) (if stop_event then emit (IsSet False) s else s)"
    have e2: "events s2 = events s @ pre" by (simp add: s2_def pre_def events_emit)
    have sp: "samples pre = [is_pressed p]" and fp: "filter key_event pre = [IsPressed (is_pressed p)]"
      by (simp_all add: pre_def)
    define res where "res = (if is_pressed p \<and> \<not> key_held
               then advance_state (if on_step then Some (step p) else None) (rand p)
                      (emit AdvanceCall s2)
               else (Normal, s2))"
    define mid where "mid = (if is_pressed p \<and> \<not> key_held then [AdvanceCall] else [])"
    have "\<exists>tr. events (snd res) = events s2 @ mid @ tr \<and> list_all (\<lambda>e. \<not> loop_event e) tr"
    proof (cases "is_pressed p \<and> \<not> key_held")
      case True
      have r: "res = advance_state (if on_step then Some (step p) else None) (rand p)
                      (emit AdvanceCall s2)"
        unfolding res_def by (rule if_P[OF True])
      have m: "mid = [AdvanceCall]" unfolding mid_def by (rule if_P[OF True])
      from advance_state_appends[of "if on_step then Some (step p) else None" "rand p" "emit AdvanceCall s2"]
      show ?thesis unfolding r m by (simp add: events_emit)
    next
      case False
      have r: "res = (Normal, s2)" unfolding res_def by (rule if_not_P[OF False])
      have m: "mid = []" unfolding mid_def by (rule if_not_P[OF False])
      show ?thesis unfolding r m by simp
    qed
    then obtain tr where tr: "events (snd res) = events s2 @ mid @ tr" "list_all (\<lambda>e. \<not> loop_event e) tr"
      by blast
    note q = quiet_no_keys[OF tr(2)]
    obtain oc s3 where r: "res = (oc, s3)" by (cases res)
    with tr e2 have e3: "events s3 = events s @ pre @ mid @ tr" by simp
    have sm: "samples mid = []" and fm: "filter key_event mid = mid" by (simp_all add: mid_def)
    have "main_loop on_step stop_event (p # ps) key_held s =
        (case res of
           (Raised e, s3) \<Rightarrow>
             (if e = Uncaught KeyboardInterrupt then Interrupted else Propagated e, s3)
         | (Normal, s3) \<Rightarrow>
             if interrupt p then (Interrupted, emit (Sleep 20) s3)
             else main_loop on_step stop_event ps (is_pressed p) (emit (Sleep 20) s3))"
      unfolding res_def s2_def by (simp only: main_loop_Cons if_not_P[OF False] Let_def)
    then have ml: "main_loop on_step stop_event (p # ps) key_held s =
        (case (oc, s3) of
           (Raised e, s3) \<Rightarrow>
             (if e = Uncaught KeyboardInterrupt then Interrupted else Propagated e, s3)
         | (Normal, s3) \<Rightarrow>
             if interrupt p then (Interrupted, emit (Sleep 20) s3)
             else main_loop on_step stop_event ps (is_pressed p) (emit (Sleep 20) s3))"
      unfolding r .
    have base: "samples (pre @ mid @ tr) = [is_pressed p]"
      "filter key_event (pre @ mid @ tr) = IsPressed (is_pressed p) # mid"
      by (simp_all add: samples_append sp fp sm fm q)
    show ?thesis
    proof (cases oc)
      case (Raised e)
      with ml have "events (snd (main_loop on_step stop_event (p # ps) key_held s)) = events s @ pre @ mid @ tr"
        by (simp add: e3)
      then show ?thesis using base
        by (intro exI[where x = "pre @ mid @ tr"]) (simp add: mid_def)
    next
      case Normal
      show ?thesis
      proof (cases "interrupt p")
        case True
        with ml Normal have "events (snd (main_loop on_step stop_event (p # ps) key_held s))
              = events s @ (pre @ mid @ tr) @ [Sleep 20]"
          by (simp add: e3 events_emit)
        moreover have "samples ((pre @ mid @ tr) @ [Sleep 20]) = [is_pressed p]"
          "filter key_event ((pre @ mid @ tr) @ [Sleep 20]) = IsPressed (is_pressed p) # mid"
          using base by (simp_all add: samples_append)
        ultimately show ?thesis
          by (intro exI[where x = "(pre @ mid @ tr) @ [Sleep 20]"]) (simp add: mid_def)
      next
        case False
        from Cons.IH[of "is_pressed p" "emit (Sleep 20) s3"] obtain tr' where
          ih: "events (snd (main_loop on_step stop_event ps (is_pressed p) (emit (Sleep 20) s3)))
                = events (emit (Sleep 20) s3) @ tr'"
              "samples tr' = map is_pressed (take (length (samples tr')) ps)"
              "filter key_event tr' = edge_trace (is_pressed p) (samples tr')" by blast
        let ?all = "(pre @ mid @ tr) @ [Sleep 20] @ tr'"
        from ml Normal False ih(1) have ev: "events (snd (main_loop on_step stop_event (p # ps) key_held s))
              = events s @ ?all"
          by (simp add: e3 events_emit)
        have s_all: "samples ?all = is_pressed p # samples tr'"
          using base(1) by (simp add: samples_append)
        have f_all: "filter key_event ?all = IsPressed (is_pressed p) # mid @ filter key_event tr'"
          using base(2) by simp
        have 1: "samples ?all = map is_pressed (take (length (samples ?all)) (p # ps))"
          unfolding s_all using ih(2) by simp
        have 2: "filter key_event ?all = edge_trace key_held (samples ?all)"
          unfolding s_all f_all ih(3) by (simp add: mid_def)
        from ev 1 2 show ?thesis by (intro exI[where x = ?all]) blast
      qed
    qed
  qed
qed

lemma same_vars_refl [simp]: "same_vars a a"
  by (simp add: same_vars_def)

lemma same_vars_emit [simp]:
  "same_vars (emit e a) b = same_vars a b" "same_vars a (emit e b) = same_vars a b"
  by (simp_all add: same_vars_def fields_emit)

lemma same_vars_trans: "same_vars a b \<Longrightarrow> same_vars b c \<Longrightarrow> same_vars a c"
  by (simp add: same_vars_def)

lemma same_vars_fields:
  assumes "same_vars a b"
  shows "music_sets b = music_sets a" "current_set_name b = current_set_name a"
    "current_state b = current_state a" "current_channel b = current_channel a"
  using assms by (simp_all add: same_vars_def)

lemma play_current_state_same:
  assumes "same_vars a b"
  shows "same_run play_current_state a b"
proof -
  note eq = same_vars_fields[OF assms]
  show ?thesis
  proof (cases "current_set_name a")
    case None
    then show ?thesis
      by (simp add: same_run_def same_vars_def play_current_state_def eq)
  next
    case name: (Some name)
    show ?thesis
    proof (cases "map_of (music_sets a) name")
      case None
      with name show ?thesis
        by (simp add: same_run_def same_vars_def play_current_state_def eq)
    next
      case (Some sounds)
      show ?thesis
      proof (cases "0 \<le> current_state a - 1 \<and> current_state a - 1 < int (length sounds)")
        case True
        have "\<exists>tr. list_all (\<lambda>e. \<not> loop_event e) tr \<and>
            events (snd (play_current_state a)) = events a @ tr \<and>
            events (snd (play_current_state b)) = events b @ tr"
          apply (rule exI[where x = "[Print (PlayingSet name (current_state a))]
              @ (if current_channel a = None then [] else [Fadeout CROSSFADE_MS])
              @ [Play (sounds ! nat (current_state a - 1)) (- 1) CROSSFADE_MS]"])
          using True name Some
          by (simp add: play_current_state_def play_loop_sound_def fields_emit events_emit eq Let_def)
        moreover have "fst (play_current_state a) = fst (play_current_state b)"
          "same_vars (snd (play_current_state a)) (snd (play_current_state b))"
          using True name Some
          by (simp_all add: same_vars_def play_current_state_def play_loop_sound_def fields_emit
              eq Let_def)
        ultimately show ?thesis unfolding same_run_def by blast
      next
        case False
        have "\<exists>tr. list_all (\<lambda>e. \<not> loop_event e) tr \<and>
            events (snd (play_current_state a)) = events a @ tr \<and>
            events (snd (play_current_state b)) = events b @ tr"
          apply (rule exI[where x = "[Print (InvalidState (current_state a) name)]"])
          using False name Some
          by (auto simp: play_current_state_def fields_emit events_emit eq Let_def)
        moreover have "fst (play_current_state a) = fst (play_current_state b)"
          "same_vars (snd (play_current_state a)) (snd (play_current_state b))"
          using False name Some
          by (auto simp: same_vars_def play_current_state_def fields_emit eq Let_def)
        ultimately show ?thesis unfolding same_run_def by blast
      qed
    qed
  qed
qed

text \<open>A message is printed, then the function runs.\<close>

lemma same_run_after_print:
  assumes "same_run f (emit (Print m) a) (emit (Print m) b)"
  shows "same_run (\<lambda>s. f (emit (Print m) s)) a b"
  using assms unfolding same_run_def
  apply (elim conjE exE)
  subgoal for tr
    apply (intro conjI)
      apply assumption
     apply assumption
    apply (rule exI[where x = "Print m # tr"])
    by (simp add: events_emit)
  done

lemma start_set_same:
  assumes "same_vars a b"
  shows "same_run (start_set new) a b"
proof -
  let ?a = "a\<lparr>current_set_name := Some new, current_state := 1\<rparr>"
  let ?b = "b\<lparr>current_set_name := Some new, current_state := 1\<rparr>"
  have v: "same_vars (emit (Print (SwitchedToSet new)) ?a) (emit (Print (SwitchedToSet new)) ?b)"
    using same_vars_fields[OF assms] by (simp add: same_vars_def fields_emit)
  have e: "events ?a = events a" "events ?b = events b" by simp_all
  from same_run_after_print[OF play_current_state_same[OF v]]
  show ?thesis
    unfolding same_run_def start_set_def by (simp add: e)
qed

lemma transition_same:
  assumes "same_vars a b"
  shows "same_run (transition name r) a b"
proof -
  note eq = same_vars_fields[OF assms]
  have upd: "same_vars (emit (Print m) (a\<lparr>current_state := n\<rparr>)) (emit (Print m) (b\<lparr>current_state := n\<rparr>))"
    for m n
    using eq by (simp add: same_vars_def fields_emit)
  have step: "same_run (\<lambda>s. play_current_state (emit (Print m) (s\<lparr>current_state := n\<rparr>))) a b" for m n
  proof -
    from same_run_after_print[OF play_current_state_same[OF upd[of m n]]]
    show ?thesis unfolding same_run_def by simp
  qed
  consider (one) "current_state a = 1" | (two) "current_state a \<noteq> 1" "current_state a = 2"
    | (three) "current_state a \<noteq> 1" "current_state a \<noteq> 2" "current_state a = 3"
    | (other) "current_state a \<noteq> 1" "current_state a \<noteq> 2" "current_state a \<noteq> 3" by blast
  then show ?thesis
  proof cases
    case one
    with step[of "ToState2 name" 2] show ?thesis
      unfolding same_run_def by (simp add: transition_def eq)
  next
    case two
    with step[of "ToState3 name" 3] show ?thesis
      unfolding same_run_def by (simp add: transition_def eq)
  next
    case three
    have c: "choose_random_set (Some name) r b = choose_random_set (Some name) r a"
      by (simp add: choose_random_set_def eq)
    show ?thesis
    proof (cases "choose_random_set (Some name) r a")
      case (Inl e)
      with three c assms show ?thesis
        unfolding same_run_def by (simp add: transition_def eq)
    next
      case (Inr new)
      have v: "same_vars (emit (Print (FinishedSet name new)) a) (emit (Print (FinishedSet name new)) b)"
        using assms by simp
      from same_run_after_print[OF start_set_same[OF v, of new]]
      show ?thesis
        using three c Inr unfolding same_run_def by (simp add: transition_def eq)
    qed
  next
    case other
    have v: "same_vars (a\<lparr>current_state := 1\<rparr>) (b\<lparr>current_state := 1\<rparr>)"
      using eq by (simp add: same_vars_def)
    from play_current_state_same[OF v] other show ?thesis
      unfolding same_run_def by (simp add: transition_def eq)
  qed
qed

lemma advance_state_same:
  assumes "same_vars a b"
  shows "same_run (advance_state on_step r) a b"
proof -
  note eq = same_vars_fields[OF assms]
  show ?thesis
  proof (cases "current_set_name a")
    case None
    with assms show ?thesis by (simp add: same_run_def advance_state_def eq)
  next
    case (Some name)
    from transition_same[OF assms, of name r] obtain tr where
      t: "fst (transition name r a) = fst (transition name r b)"
         "same_vars (snd (transition name r a)) (snd (transition name r b))"
         "list_all (\<lambda>e. \<not> loop_event e) tr"
         "events (snd (transition name r a)) = events a @ tr"
         "events (snd (transition name r b)) = events b @ tr"
      unfolding same_run_def by blast
    obtain oc sa where ta: "transition name r a = (oc, sa)" by (cases "transition name r a")
    obtain oc' sb where tb: "transition name r b = (oc', sb)" by (cases "transition name r b")
    from t ta tb have o: "oc' = oc" and v: "same_vars sa sb"
      and ea: "events sa = events a @ tr" and eb: "events sb = events b @ tr" by simp_all
    show ?thesis
    proof (cases oc)
      case (Raised e)
      with Some ta tb o v ea eb t(3) show ?thesis
        unfolding same_run_def by (auto simp: advance_state_def eq)
    next
      case Normal
      have q: "list_all (\<lambda>e. \<not> loop_event e) (tr @ notify_events on_step)"
        using t(3) by (simp add: notify_events_def split: option.splits cb_result.splits)
      have "advance_state on_step r a = (notify_outcome on_step, sa\<lparr>events := events sa @ notify_events on_step\<rparr>)"
        "advance_state on_step r b = (notify_outcome on_step, sb\<lparr>events := events sb @ notify_events on_step\<rparr>)"
        using Some ta tb o Normal by (simp_all add: advance_state_def notify_eq eq)
      with v ea eb q show ?thesis
        unfolding same_run_def
        by (intro conjI exI[where x = "tr @ notify_events on_step"]) (simp_all add: same_vars_def)
    qed
  qed
qed

lemma advance_times_same:
  assumes "same_vars a b"
  shows "same_run (advance_times inputs) a b"
  using assms
proof (induction inputs arbitrary: a b)
  case Nil
  then show ?case by (simp add: same_run_def)
next
  case (Cons x inputs)
  obtain on_step r where x: "x = (on_step, r)" by (cases x)
  from advance_state_same[OF Cons.prems, of on_step r] obtain tr where
    t: "fst (advance_state on_step r a) = fst (advance_state on_step r b)"
       "same_vars (snd (advance_state on_step r a)) (snd (advance_state on_step r b))"
       "list_all (\<lambda>e. \<not> loop_event e) tr"
       "events (snd (advance_state on_step r a)) = events a @ tr"
       "events (snd (advance_state on_step r b)) = events b @ tr"
    unfolding same_run_def by blast
  obtain oc sa where ta: "advance_state on_step r a = (oc, sa)" by (cases "advance_state on_step r a")
  obtain oc' sb where tb: "advance_state on_step r b = (oc', sb)" by (cases "advance_state on_step r b")
  from t ta tb have o: "oc' = oc" and v: "same_vars sa sb"
    and ea: "events sa = events a @ tr" and eb: "events sb = events b @ tr" by simp_all
  show ?case
  proof (cases oc)
    case (Raised e)
    with ta tb o v ea eb t(3) show ?thesis
      unfolding same_run_def x by auto
  next
    case Normal
    from Cons.IH[OF v] obtain tr' where
      ih: "fst (advance_times inputs sa) = fst (advance_times inputs sb)"
          "same_vars (snd (advance_times inputs sa)) (snd (advance_times inputs sb))"
          "list_all (\<lambda>e. \<not> loop_event e) tr'"
          "events (snd (advance_times inputs sa)) = events sa @ tr'"
          "events (snd (advance_times inputs sb)) = events sb @ tr'"
      unfolding same_run_def by blast
    with ta tb o Normal ea eb t(3) show ?thesis
      unfolding same_run_def x
      by (intro conjI exI[where x = "tr @ tr'"]) simp_all
  qed
qed

text \<open>
  The loop against one call of \<^verbatim>\<open>advance_state\<close> per press: same variables at the end,
  same events but for the loop's own, and an exception of a call ends the loop.
\<close>

lemma main_loop_presses:
  "\<exists>tr. events (snd (main_loop on_step stop_event polls key_held s)) = events s @ tr
      \<and> events (snd (advance_times
            (press_inputs on_step (presses key_held (polled stop_event polls))) s))
          = events s @ filter (\<lambda>e. \<not> loop_event e) tr
      \<and> same_vars (snd (main_loop on_step stop_event polls key_held s))
            (snd (advance_times
               (press_inputs on_step (presses key_held (polled stop_event polls))) s))
      \<and> samples tr = map is_pressed (take (length (samples tr)) (polled stop_event polls))
      \<and> (fst (advance_times
               (press_inputs on_step (presses key_held (polled stop_event polls))) s) = Normal
           \<longrightarrow> samples tr = map is_pressed (polled stop_event polls))
      \<and> (\<forall>e. fst (advance_times
               (press_inputs on_step (presses key_held (polled stop_event polls))) s) = Raised e
           \<longrightarrow> fst (main_loop on_step stop_event polls key_held s) =
                 (if e = Uncaught KeyboardInterrupt then Interrupted else Propagated e))"
proof (induction polls arbitrary: key_held s)
  case Nil
  show ?case by (simp add: press_inputs_def)
next
  case (Cons p ps)
  show ?case
  proof (cases "stop_event \<and> stop_is_set p")
    case True
    have m: "main_loop on_step stop_event (p # ps) key_held s = (Break, emit (IsSet True) s)"
      by (simp only: main_loop_Cons if_P[OF True])
    from True have i: "press_inputs on_step (presses key_held (polled stop_event (p # ps))) = []"
      by (simp add: press_inputs_def)
    show ?thesis unfolding m i using True
      by (intro exI[where x = "[IsSet True]"]) (simp add: events_emit)
  next
    case False
    define pre where "pre = (if stop_event then [IsSet False] else []) @ [IsPressed (is_pressed p)]"
    define s2 where "s2 = emit (IsPressed (is_pressed p)) (if stop_event then emit (IsSet False) s else s)"
    define cb where "cb = (if on_step then Some (step p) else None)"
    define X where "X = (if interrupt p then [] else polled stop_event ps)"
    define rest where "rest = press_inputs on_step (presses (is_pressed p) X)"
    have e2: "events s2 = events s @ pre" by (simp add: s2_def pre_def events_emit)
    have v2: "same_vars s2 s" by (simp add: s2_def)
    have sp: "samples pre = [is_pressed p]" and fp: "filter (\<lambda>e. \<not> loop_event e) pre = []"
      by (simp_all add: pre_def)
    define res where "res = (if is_pressed p \<and> \<not> key_held
                 then advance_state (if on_step then Some (step p) else None) (rand p)
                        (emit AdvanceCall s2)
                 else (Normal, s2))"
    define ares where "ares = (if is_pressed p \<and> \<not> key_held
                 then advance_state cb (rand p) s else (Normal, s))"
    define mid where "mid = (if is_pressed p \<and> \<not> key_held then [AdvanceCall] else [])"
    have sm: "samples mid = []" and fm: "filter (\<lambda>e. \<not> loop_event e) mid = []"
      by (simp_all add: mid_def)
    have "fst res = fst ares \<and> same_vars (snd res) (snd ares) \<and>
          (\<exists>tr1. list_all (\<lambda>e. \<not> loop_event e) tr1 \<and>
             events (snd res) = events s2 @ mid @ tr1 \<and> events (snd ares) = events s @ tr1)"
    proof (cases "is_pressed p \<and> \<not> key_held")
      case True
      have r: "res = advance_state cb (rand p) (emit AdvanceCall s2)"
        unfolding res_def cb_def by (rule if_P[OF True])
      have a: "ares = advance_state cb (rand p) s" unfolding ares_def by (rule if_P[OF True])
      have m: "mid = [AdvanceCall]" unfolding mid_def by (rule if_P[OF True])
      have "same_vars (emit AdvanceCall s2) s" using v2 by simp
      from advance_state_same[OF this, of cb "rand p"] show ?thesis
        unfolding r a m same_run_def by (simp add: events_emit)
    next
      case False
      have r: "res = (Normal, s2)" unfolding res_def by (rule if_not_P[OF False])
      have a: "ares = (Normal, s)" unfolding ares_def by (rule if_not_P[OF False])
      have m: "mid = []" unfolding mid_def by (rule if_not_P[OF False])
      show ?thesis unfolding r a m using v2 by simp
    qed
    then obtain tr1 where
      r1: "fst res = fst ares" "same_vars (snd res) (snd ares)"
          "list_all (\<lambda>e. \<not> loop_event e) tr1"
          "events (snd res) = events s2 @ mid @ tr1" "events (snd ares) = events s @ tr1"
      by blast
    note q = quiet_no_keys[OF r1(3)]
    have f1: "filter (\<lambda>e. \<not> loop_event e) tr1 = tr1"
      using r1(3) by (simp add: list_all_iff)
    obtain oc s3 where r: "res = (oc, s3)" by (cases res)
    obtain oc' sa where a: "ares = (oc', sa)" by (cases ares)
    from r1 r a e2 have o: "oc' = oc" and v3: "same_vars s3 sa"
      and e3: "events s3 = events s @ pre @ mid @ tr1" and ea: "events sa = events s @ tr1"
      by simp_all
    have "main_loop on_step stop_event (p # ps) key_held s =
          (case res of
             (Raised e, s3) \<Rightarrow>
               (if e = Uncaught KeyboardInterrupt then Interrupted else Propagated e, s3)
           | (Normal, s3) \<Rightarrow>
               if interrupt p then (Interrupted, emit (Sleep 20) s3)
               else main_loop on_step stop_event ps (is_pressed p) (emit (Sleep 20) s3))"
      unfolding res_def s2_def by (simp only: main_loop_Cons if_not_P[OF False] Let_def)
    then have ml: "main_loop on_step stop_event (p # ps) key_held s =
          (case (oc, s3) of
             (Raised e, s3) \<Rightarrow>
               (if e = Uncaught KeyboardInterrupt then Interrupted else Propagated e, s3)
           | (Normal, s3) \<Rightarrow>
               if interrupt p then (Interrupted, emit (Sleep 20) s3)
               else main_loop on_step stop_event ps (is_pressed p) (emit (Sleep 20) s3))"
      unfolding r .
    have pol: "polled stop_event (p # ps) = p # X"
      using False by (simp add: X_def)
    have "advance_times (press_inputs on_step (presses key_held (p # X))) s =
          (case ares of (Normal, s') \<Rightarrow> advance_times rest s' | (Raised e, s') \<Rightarrow> (Raised e, s'))"
    proof (cases "is_pressed p \<and> \<not> key_held")
      case True
      have p1: "press_inputs on_step (presses key_held (p # X)) = (cb, rand p) # rest"
        using True by (simp add: press_inputs_def rest_def cb_def)
      have a1: "ares = advance_state cb (rand p) s" unfolding ares_def by (rule if_P[OF True])
      show ?thesis unfolding p1 a1 by simp
    next
      case False
      have p1: "press_inputs on_step (presses key_held (p # X)) = rest"
        using False by (auto simp: press_inputs_def rest_def)
      have a1: "ares = (Normal, s)" unfolding ares_def by (rule if_not_P[OF False])
      show ?thesis unfolding p1 a1 by simp
    qed
    then have al: "advance_times (press_inputs on_step (presses key_held (polled stop_event (p # ps)))) s =
          (case (oc, sa) of (Normal, s') \<Rightarrow> advance_times rest s' | (Raised e, s') \<Rightarrow> (Raised e, s'))"
      unfolding pol a o .
    define M where "M = main_loop on_step stop_event (p # ps) key_held s"
    define A where "A = advance_times
        (press_inputs on_step (presses key_held (polled stop_event (p # ps)))) s"
    have goal: "\<exists>tr. events (snd M) = events s @ tr
      \<and> events (snd A) = events s @ filter (\<lambda>e. \<not> loop_event e) tr
      \<and> same_vars (snd M) (snd A)
      \<and> samples tr = map is_pressed (take (length (samples tr)) (p # X))
      \<and> (fst A = Normal \<longrightarrow> samples tr = map is_pressed (p # X))
      \<and> (\<forall>e. fst A = Raised e \<longrightarrow>
             fst M = (if e = Uncaught KeyboardInterrupt then Interrupted else Propagated e))"
    proof (cases oc)
      case (Raised e)
      have mv: "M = (if e = Uncaught KeyboardInterrupt then Interrupted else Propagated e, s3)"
        unfolding M_def ml using Raised by simp
      have av: "A = (Raised e, sa)" unfolding A_def al using Raised by simp
      show ?thesis unfolding mv av using v3 e3 ea
        by (intro exI[where x = "pre @ mid @ tr1"]) (simp add: fp fm f1 samples_append sp sm q)
    next
      case Normal
      show ?thesis
      proof (cases "interrupt p")
        case True
        have r0: "rest = []" using True by (simp add: rest_def X_def press_inputs_def)
        have x0: "X = []" using True by (simp add: X_def)
        have mv: "M = (Interrupted, emit (Sleep 20) s3)"
          unfolding M_def ml using Normal True by simp
        have av: "A = (Normal, sa)" unfolding A_def al r0 using Normal by simp
        show ?thesis unfolding mv av x0 using v3 e3 ea
          by (intro exI[where x = "pre @ mid @ tr1 @ [Sleep 20]"])
            (simp add: fp fm f1 events_emit samples_append sp sm q)
      next
        case False
        have x: "X = polled stop_event ps" using False by (simp add: X_def)
        define s4 where "s4 = emit (Sleep 20) s3"
        have v4: "same_vars s4 sa" using v3 by (simp add: s4_def)
        have e4: "events s4 = events s @ pre @ mid @ tr1 @ [Sleep 20]"
          by (simp add: s4_def events_emit e3)
        from Cons.IH[of "is_pressed p" s4] obtain tr' where
          ih: "events (snd (main_loop on_step stop_event ps (is_pressed p) s4)) = events s4 @ tr'"
              "events (snd (advance_times rest s4)) = events s4 @ filter (\<lambda>e. \<not> loop_event e) tr'"
              "same_vars (snd (main_loop on_step stop_event ps (is_pressed p) s4))
                 (snd (advance_times rest s4))"
              "samples tr' = map is_pressed (take (length (samples tr')) (polled stop_event ps))"
              "fst (advance_times rest s4) = Normal \<longrightarrow> samples tr' = map is_pressed (polled stop_event ps)"
              "\<forall>e. fst (advance_times rest s4) = Raised e \<longrightarrow>
                 fst (main_loop on_step stop_event ps (is_pressed p) s4) =
                 (if e = Uncaught KeyboardInterrupt then Interrupted else Propagated e)"
          unfolding rest_def x by blast
        from advance_times_same[OF v4, of rest] obtain tr2 where
          c: "fst (advance_times rest s4) = fst (advance_times rest sa)"
             "same_vars (snd (advance_times rest s4)) (snd (advance_times rest sa))"
             "events (snd (advance_times rest s4)) = events s4 @ tr2"
             "events (snd (advance_times rest sa)) = events sa @ tr2"
          unfolding same_run_def by blast
        from ih(2) c(3) have t2: "tr2 = filter (\<lambda>e. \<not> loop_event e) tr'" by simp
        have vv: "same_vars (snd (main_loop on_step stop_event ps (is_pressed p) s4))
                 (snd (advance_times rest sa))"
          by (rule same_vars_trans[OF ih(3) c(2)])
        have mv: "M = main_loop on_step stop_event ps (is_pressed p) s4"
          unfolding M_def ml s4_def using Normal False by simp
        have av: "A = advance_times rest sa" unfolding A_def al using Normal by simp
        show ?thesis unfolding mv av x
          apply (rule exI[where x = "pre @ mid @ tr1 @ [Sleep 20] @ tr'"])
          using ih(1,4,5,6) c(1,4) vv
          by (simp add: e4 ea t2 fp fm f1 samples_append sp sm q)
      qed
    qed
    then show ?thesis unfolding M_def A_def pol .
  qed
qed

lemma length_presses: "length (presses held ps) = rising_edges held (map is_pressed ps)"
  by (induction ps arbitrary: held) simp_all

text \<open>
  Claim C6.  Whatever the state, the samples and the initial latch: the events the main
  loop adds contain the key samples \<^verbatim>\<open>keyboard.is_pressed\<close> returned, which are the
  samples of the polls up to the stop event or an interrupt (all of them if no call of
  \<^verbatim>\<open>advance_state\<close> raises), and the line that calls \<^verbatim>\<open>advance_state\<close> is reached exactly
  after each sample in which the key is pressed while it was not in the sample before
  (for the first sample: while \<^verbatim>\<open>key_held\<close> was false).  And the loop does what one call
  of \<^verbatim>\<open>advance_state\<close> per press does, in the order of the presses: the engine's
  variables at the end are the same, the events added are the same once the loop's own
  are left out, and a call that raises ends the loop.  So \<^verbatim>\<open>advance_state\<close> runs once
  per continuous press, and neither while the key stays pressed nor while it is released.
\<close>

theorem C6_edge_triggered:
  "\<exists>tr. events (snd (main_loop on_step stop_event polls key_held s)) = events s @ tr
      \<and> samples tr = map is_pressed (take (length (samples tr)) (polled stop_event polls))
      \<and> filter key_event tr = edge_trace key_held (samples tr)
      \<and> count_list tr AdvanceCall = rising_edges key_held (samples tr)
      \<and> length (presses key_held (polled stop_event polls)) =
            rising_edges key_held (map is_pressed (polled stop_event polls))
      \<and> events (snd (advance_times
            (press_inputs on_step (presses key_held (polled stop_event polls))) s))
          = events s @ filter (\<lambda>e. \<not> loop_event e) tr
      \<and> same_vars (snd (main_loop on_step stop_event polls key_held s))
            (snd (advance_times
               (press_inputs on_step (presses key_held (polled stop_event polls))) s))
      \<and> (fst (advance_times
               (press_inputs on_step (presses key_held (polled stop_event polls))) s) = Normal
           \<longrightarrow> samples tr = map is_pressed (polled stop_event polls))
      \<and> (\<forall>e. fst (advance_times
               (press_inputs on_step (presses key_held (polled stop_event polls))) s) = Raised e
           \<longrightarrow> fst (main_loop on_step stop_event polls key_held s) =
                 (if e = Uncaught KeyboardInterrupt then Interrupted else Propagated e))"
proof -
  from main_loop_presses[of on_step stop_event polls key_held s] obtain tr where
    p: "events (snd (main_loop on_step stop_event polls key_held s)) = events s @ tr"
       "events (snd (advance_times
            (press_inputs on_step (presses key_held (polled stop_event polls))) s))
          = events s @ filter (\<lambda>e. \<not> loop_event e) tr"
       "same_vars (snd (main_loop on_step stop_event polls key_held s))
            (snd (advance_times
               (press_inputs on_step (presses key_held (polled stop_event polls))) s))"
       "samples tr = map is_pressed (take (length (samples tr)) (polled stop_event polls))"
       "fst (advance_times
               (press_inputs on_step (presses key_held (polled stop_event polls))) s) = Normal
           \<longrightarrow> samples tr = map is_pressed (polled stop_event polls)"
       "\<forall>e. fst (advance_times
               (press_inputs on_step (presses key_held (polled stop_event polls))) s) = Raised e
           \<longrightarrow> fst (main_loop on_step stop_event polls key_held s) =
                 (if e = Uncaught KeyboardInterrupt then Interrupted else Propagated e)"
    by (elim exE conjE) (rule that; assumption)
  from main_loop_key_trace[of on_step stop_event polls key_held s] obtain tr' where
    k: "events (snd (main_loop on_step stop_event polls key_held s)) = events s @ tr'"
       "filter key_event tr' = edge_trace key_held (samples tr')" by blast
  from p(1) k(1) have "tr' = tr" by simp
  with k(2) have e: "filter key_event tr = edge_trace key_held (samples tr)" by simp
  have c: "count_list tr AdvanceCall = rising_edges key_held (samples tr)"
    using count_list_filter_key[of tr] rising_edges_count[of key_held "samples tr"] e by simp
  from p e c length_presses[of key_held "polled stop_event polls"] show ?thesis
    by (intro exI[where x = tr] conjI)
qed

theorem C6_witness:
  "fst (advance_times (press_inputs True (presses False (polled True demo_polls))) one_set) = Normal
   \<and> press_inputs True (presses False (polled True demo_polls)) = [(Some Returns, 0), (Some Returns, 0)]
   \<and> map is_pressed (polled True demo_polls) = [True, True, False, True]
   \<and> samples (events (snd (main_loop True True demo_polls False one_set))) =
         map is_pressed (polled True demo_polls)
   \<and> same_vars (snd (main_loop True True demo_polls False one_set))
         (snd (advance_times (press_inputs True (presses False (polled True demo_polls))) one_set))
   \<and> current_state (snd (main_loop True True demo_polls False one_set)) = 3"
proof -
  have n: "fst (advance_times (press_inputs True (presses False (polled True demo_polls))) one_set) = Normal"
    by code_simp
  have i: "press_inputs True (presses False (polled True demo_polls)) = [(Some Returns, 0), (Some Returns, 0)]"
    by code_simp
  have m: "map is_pressed (polled True demo_polls) = [True, True, False, True]"
    by code_simp
  have c: "current_state (snd (main_loop True True demo_polls False one_set)) = 3"
    by code_simp
  have e0: "events one_set = []" by (simp add: one_set_def)
  from C6_edge_triggered[of True True demo_polls False one_set] obtain tr where
    t: "events (snd (main_loop True True demo_polls False one_set)) = events one_set @ tr"
       "same_vars (snd (main_loop True True demo_polls False one_set))
         (snd (advance_times (press_inputs True (presses False (polled True demo_polls))) one_set))"
       "fst (advance_times (press_inputs True (presses False (polled True demo_polls))) one_set) = Normal
           \<longrightarrow> samples tr = map is_pressed (polled True demo_polls)"
    by (elim exE conjE) (rule that; assumption)
  from t(1,3) n e0 have s: "samples (events (snd (main_loop True True demo_polls False one_set))) =
         map is_pressed (polled True demo_polls)" by simp
  from n i m s t(2) c show ?thesis by (intro conjI)
qed

subsection \<open>Runs of the loop under the invariant\<close>

lemma no_invalid_state_append [simp]:
  "no_invalid_state (xs @ ys) = (no_invalid_state xs \<and> no_invalid_state ys)"
  by (simp add: no_invalid_state_def)

lemma no_invalid_state_simps [simp]:
  "no_invalid_state []"
  "no_invalid_state (e # es) = (\<not> invalid_state_event e \<and> no_invalid_state es)"
  by (simp_all add: no_invalid_state_def)

lemma engine_events_valid:
  assumes "list_all (\<lambda>e. transition_event e \<or> notify_event e) tr"
  shows "no_invalid_state tr"
proof -
  have "transition_event e \<or> notify_event e \<Longrightarrow> \<not> invalid_state_event e" for e
    by (induction e rule: invalid_state_event.induct) simp_all
  with assms show ?thesis by (auto simp: no_invalid_state_def list_all_iff)
qed

lemma set_inv_emit [simp]: "set_inv (emit e s) = set_inv s"
  by (simp add: set_inv_def fields_emit split: option.splits)

lemma engine_inv_emit [simp]: "engine_inv (emit e s) = engine_inv s"
  by (simp add: engine_inv_def fields_emit)

text \<open>
  One iteration of the loop that does not break, under the invariant.  The call of
  \<^verbatim>\<open>advance_state\<close> raises nothing of its own: it is left by an exception only when the
  callback raises one that \<^verbatim>\<open>except Exception\<close> does not catch.
\<close>

lemma main_loop_step:
  assumes "set_inv s" "\<not> (stop_event \<and> stop_is_set p)"
  shows "\<exists>oc s3 tr. set_inv s3 \<and> (engine_inv s \<longrightarrow> engine_inv s3)
      \<and> (current_set_name s \<noteq> None \<longrightarrow> current_set_name s3 \<noteq> None)
      \<and> music_sets s3 = music_sets s
      \<and> events s3 = events s @ (if stop_event then [IsSet False] else [])
                       @ [IsPressed (is_pressed p)] @ tr
      \<and> no_invalid_state tr
      \<and> (oc = Normal \<or> (\<exists>b. oc = Raised (Uncaught b) \<and> on_step \<and> step p = RaisesBase b))
      \<and> (\<forall>ps. main_loop on_step stop_event (p # ps) key_held s =
            (case oc of
               Raised e \<Rightarrow>
                 (if e = Uncaught KeyboardInterrupt then Interrupted else Propagated e, s3)
             | Normal \<Rightarrow>
                 if interrupt p then (Interrupted, emit (Sleep 20) s3)
                 else main_loop on_step stop_event ps (is_pressed p) (emit (Sleep 20) s3)))"
proof -
  define s2 where "s2 = emit (IsPressed (is_pressed p)) (if stop_event then emit (IsSet False) s else s)"
  have e2: "events s2 = events s @ (if stop_event then [IsSet False] else []) @ [IsPressed (is_pressed p)]"
    by (simp add: s2_def events_emit)
  have i2: "set_inv s2" "engine_inv s2 = engine_inv s" "current_set_name s2 = current_set_name s"
    "music_sets s2 = music_sets s"
    using assms(1) by (simp_all add: s2_def fields_emit)
  define cb where "cb = (if on_step then Some (step p) else None)"
  define res where "res = (if is_pressed p \<and> \<not> key_held
                 then advance_state cb (rand p) (emit AdvanceCall s2)
                 else (Normal, s2))"
  have ml: "main_loop on_step stop_event (p # ps) key_held s =
          (case res of
             (Raised e, s3) \<Rightarrow>
               (if e = Uncaught KeyboardInterrupt then Interrupted else Propagated e, s3)
           | (Normal, s3) \<Rightarrow>
               if interrupt p then (Interrupted, emit (Sleep 20) s3)
               else main_loop on_step stop_event ps (is_pressed p) (emit (Sleep 20) s3))" for ps
    unfolding res_def s2_def cb_def by (simp only: main_loop_Cons if_not_P[OF assms(2)] Let_def)
  have no: "notify_outcome cb = Normal
              \<or> (\<exists>b. notify_outcome cb = Raised (Uncaught b) \<and> on_step \<and> step p = RaisesBase b)"
  proof (cases on_step)
    case True
    then have "cb = Some (step p)" by (simp add: cb_def)
    with True show ?thesis by (cases "step p") (simp_all add: notify_outcome_def)
  next
    case False
    then have "cb = None" by (simp add: cb_def)
    then show ?thesis by (simp add: notify_outcome_def)
  qed
  have "\<exists>oc s3 tr. res = (oc, s3) \<and> set_inv s3 \<and> (engine_inv s \<longrightarrow> engine_inv s3)
      \<and> (current_set_name s \<noteq> None \<longrightarrow> current_set_name s3 \<noteq> None)
      \<and> music_sets s3 = music_sets s \<and> events s3 = events s2 @ tr \<and> no_invalid_state tr
      \<and> (oc = Normal \<or> (\<exists>b. oc = Raised (Uncaught b) \<and> on_step \<and> step p = RaisesBase b))"
  proof (cases "is_pressed p \<and> \<not> key_held")
    case True
    have r: "res = advance_state cb (rand p) (emit AdvanceCall s2)"
      unfolding res_def by (rule if_P[OF True])
    define oc where "oc = (if current_set_name (emit AdvanceCall s2) = None then Normal
                           else notify_outcome cb)"
    have "set_inv (emit AdvanceCall s2)" using i2(1) by simp
    from advance_state_ok[OF this, of cb "rand p"]
    obtain s3 tr where h: "advance_state cb (rand p) (emit AdvanceCall s2) =
        (if current_set_name (emit AdvanceCall s2) = None then Normal else notify_outcome cb, s3)"
      "set_inv s3"
      "current_set_name (emit AdvanceCall s2) \<noteq> None \<longrightarrow> engine_inv s3 \<and> current_set_name s3 \<noteq> None"
      "current_set_name (emit AdvanceCall s2) = None \<longrightarrow> s3 = emit AdvanceCall s2"
      "music_sets s3 = music_sets (emit AdvanceCall s2)"
      "events s3 = events (emit AdvanceCall s2) @ tr"
      "list_all (\<lambda>e. transition_event e \<or> notify_event e) tr"
      by (elim exE conjE) (rule that; assumption)
    have ei: "engine_inv s \<longrightarrow> engine_inv s3"
      using h(3,4) i2 by (cases "current_set_name s") (simp_all add: fields_emit)
    have nn: "current_set_name s \<noteq> None \<longrightarrow> current_set_name s3 \<noteq> None"
      using h(3) i2 by (simp add: fields_emit)
    have o: "oc = Normal \<or> (\<exists>b. oc = Raised (Uncaught b) \<and> on_step \<and> step p = RaisesBase b)"
      using no unfolding oc_def by (cases "current_set_name (emit AdvanceCall s2) = None") simp_all
    have v: "no_invalid_state (AdvanceCall # tr)"
      using engine_events_valid[OF h(7)] by simp
    have e3: "events s3 = events s2 @ AdvanceCall # tr"
      using h(6) by (simp add: events_emit)
    have m3: "music_sets s3 = music_sets s"
      using h(5) i2(4) by (simp add: fields_emit)
    from h(1) have r': "res = (oc, s3)" unfolding r oc_def .
    from r' h(2) ei nn m3 e3 v o show ?thesis by blast
  next
    case False
    have r: "res = (Normal, s2)" unfolding res_def by (rule if_not_P[OF False])
    show ?thesis
      apply (rule exI[where x = Normal], rule exI[where x = s2], rule exI[where x = "[]"])
      using r i2 by simp
  qed
  then obtain oc s3 tr where h: "res = (oc, s3)" "set_inv s3" "engine_inv s \<longrightarrow> engine_inv s3"
      "current_set_name s \<noteq> None \<longrightarrow> current_set_name s3 \<noteq> None"
      "music_sets s3 = music_sets s" "events s3 = events s2 @ tr" "no_invalid_state tr"
      "oc = Normal \<or> (\<exists>b. oc = Raised (Uncaught b) \<and> on_step \<and> step p = RaisesBase b)"
    by (elim exE conjE) (rule that; assumption)
  have e3: "events s3 = events s @ (if stop_event then [IsSet False] else [])
                       @ [IsPressed (is_pressed p)] @ tr"
    using h(6) e2 by simp
  have ml': "\<forall>ps. main_loop on_step stop_event (p # ps) key_held s =
            (case oc of
               Raised e \<Rightarrow>
                 (if e = Uncaught KeyboardInterrupt then Interrupted else Propagated e, s3)
             | Normal \<Rightarrow>
                 if interrupt p then (Interrupted, emit (Sleep 20) s3)
                 else main_loop on_step stop_event ps (is_pressed p) (emit (Sleep 20) s3))"
    unfolding ml h(1) by (cases oc) simp_all
  from h(2,3,4,5) e3 h(7,8) ml' show ?thesis by blast
qed

text \<open>
  Any run of the loop, under the invariant: the invariant is kept, no message about an
  invalid state is printed, and the only exception that leaves the loop is one that the
  callback raised at one of the polls and that \<^verbatim>\<open>except Exception\<close> does not catch
  (\<^verbatim>\<open>KeyboardInterrupt\<close> apart, which the \<^verbatim>\<open>try\<close> statement catches).
\<close>

lemma main_loop_safe:
  assumes "set_inv s"
  shows "\<exists>ex s' tr. main_loop on_step stop_event polls key_held s = (ex, s')
      \<and> (\<forall>e. ex = Propagated e \<longrightarrow>
            (\<exists>b. e = Uncaught b \<and> b \<noteq> KeyboardInterrupt \<and> on_step
                 \<and> RaisesBase b \<in> set (map step polls)))
      \<and> set_inv s' \<and> (engine_inv s \<longrightarrow> engine_inv s')
      \<and> (current_set_name s \<noteq> None \<longrightarrow> current_set_name s' \<noteq> None)
      \<and> music_sets s' = music_sets s
      \<and> events s' = events s @ tr \<and> no_invalid_state tr"
  using assms
proof (induction polls arbitrary: key_held s)
  case Nil
  then show ?case by simp
next
  case (Cons p ps)
  show ?case
  proof (cases "stop_event \<and> stop_is_set p")
    case True
    then have "main_loop on_step stop_event (p # ps) key_held s = (Break, emit (IsSet True) s)"
      by (simp only: main_loop_Cons if_P)
    with Cons.prems show ?thesis
      by (intro exI[where x = Break] exI[where x = "emit (IsSet True) s"] exI[where x = "[IsSet True]"])
        (simp add: fields_emit events_emit del: main_loop.simps)
  next
    case False
    from main_loop_step[OF Cons.prems False, where on_step = on_step and key_held = key_held]
    obtain oc s3 tr where
      h: "set_inv s3" "engine_inv s \<longrightarrow> engine_inv s3"
         "current_set_name s \<noteq> None \<longrightarrow> current_set_name s3 \<noteq> None"
         "music_sets s3 = music_sets s"
         "events s3 = events s @ (if stop_event then [IsSet False] else [])
                       @ [IsPressed (is_pressed p)] @ tr"
         "no_invalid_state tr"
         "oc = Normal \<or> (\<exists>b. oc = Raised (Uncaught b) \<and> on_step \<and> step p = RaisesBase b)"
         "\<forall>ps. main_loop on_step stop_event (p # ps) key_held s =
            (case oc of
               Raised e \<Rightarrow>
                 (if e = Uncaught KeyboardInterrupt then Interrupted else Propagated e, s3)
             | Normal \<Rightarrow>
                 if interrupt p then (Interrupted, emit (Sleep 20) s3)
                 else main_loop on_step stop_event ps (is_pressed p) (emit (Sleep 20) s3))"
      by (elim exE conjE) (rule that; assumption)
    let ?pre = "(if stop_event then [IsSet False] else []) @ [IsPressed (is_pressed p)] @ tr"
    have v: "no_invalid_state ?pre" "no_invalid_state (?pre @ [Sleep 20])" using h(6) by simp_all
    from h(7) show ?thesis
    proof
      assume n: "oc = Normal"
      from h(8) n have ml: "main_loop on_step stop_event (p # ps) key_held s =
            (if interrupt p then (Interrupted, emit (Sleep 20) s3)
             else main_loop on_step stop_event ps (is_pressed p) (emit (Sleep 20) s3))"
        by simp
      show ?thesis
      proof (cases "interrupt p")
        case True
        with h v ml show ?thesis
          by (intro exI[where x = Interrupted] exI[where x = "emit (Sleep 20) s3"]
                exI[where x = "?pre @ [Sleep 20]"])
            (simp add: fields_emit events_emit del: main_loop.simps)
      next
        case False
        have "set_inv (emit (Sleep 20) s3)" using h(1) by simp
        from Cons.IH[OF this, of "is_pressed p"] obtain ex s' tr' where
          ih: "main_loop on_step stop_event ps (is_pressed p) (emit (Sleep 20) s3) = (ex, s')"
              "\<forall>e. ex = Propagated e \<longrightarrow>
                 (\<exists>b. e = Uncaught b \<and> b \<noteq> KeyboardInterrupt \<and> on_step
                      \<and> RaisesBase b \<in> set (map step ps))"
              "set_inv s'" "engine_inv (emit (Sleep 20) s3) \<longrightarrow> engine_inv s'"
              "current_set_name (emit (Sleep 20) s3) \<noteq> None \<longrightarrow> current_set_name s' \<noteq> None"
              "music_sets s' = music_sets (emit (Sleep 20) s3)"
              "events s' = events (emit (Sleep 20) s3) @ tr'" "no_invalid_state tr'"
          by (elim exE conjE) (rule that; assumption)
        from ih(2) have p: "\<forall>e. ex = Propagated e \<longrightarrow>
                 (\<exists>b. e = Uncaught b \<and> b \<noteq> KeyboardInterrupt \<and> on_step
                      \<and> RaisesBase b \<in> set (map step (p # ps)))" by auto
        from ml False ih(1) have m: "main_loop on_step stop_event (p # ps) key_held s = (ex, s')"
          by simp
        have ei: "engine_inv s \<longrightarrow> engine_inv s'" using h(2) ih(4) by simp
        have nn: "current_set_name s \<noteq> None \<longrightarrow> current_set_name s' \<noteq> None"
          using h(3) ih(5) by (simp add: fields_emit)
        have ms: "music_sets s' = music_sets s" using h(4) ih(6) by (simp add: fields_emit)
        have ev: "events s' = events s @ (?pre @ [Sleep 20]) @ tr'"
          using h(5) ih(7) by (simp add: events_emit)
        have vv: "no_invalid_state ((?pre @ [Sleep 20]) @ tr')" using v(2) ih(8) by simp
        from m p ih(3) ei nn ms ev vv show ?thesis by blast
      qed
    next
      assume "\<exists>b. oc = Raised (Uncaught b) \<and> on_step \<and> step p = RaisesBase b"
      then obtain b where b: "oc = Raised (Uncaught b)" "on_step" "step p = RaisesBase b" by blast
      from h(8) b(1) have ml: "main_loop on_step stop_event (p # ps) key_held s =
            (if b = KeyboardInterrupt then Interrupted else Propagated (Uncaught b), s3)"
        by simp
      have mem: "RaisesBase b \<in> set (map step (p # ps))" using b(3) by simp
      have p: "\<forall>e. (if b = KeyboardInterrupt then Interrupted else Propagated (Uncaught b))
                     = Propagated e \<longrightarrow>
                 (\<exists>b. e = Uncaught b \<and> b \<noteq> KeyboardInterrupt \<and> on_step
                      \<and> RaisesBase b \<in> set (map step (p # ps)))"
        using b(2) mem by (cases "b = KeyboardInterrupt") auto
      from ml p h(1,2,3,4,5) v(1) show ?thesis by blast
    qed
  qed
qed

text \<open>
  The loop runs until the first poll at which the stop event is set, when no interrupt
  arrives before and no call of the callback before is left by an exception that
  \<^verbatim>\<open>except Exception\<close> does not catch.
\<close>

lemma main_loop_stops:
  assumes "set_inv s"
    "\<forall>q \<in> set pre. \<not> stop_is_set q \<and> \<not> interrupt q
        \<and> (on_step \<longrightarrow> (\<forall>b. step q \<noteq> RaisesBase b))"
    "stop_is_set p"
  shows "\<exists>s' tr. main_loop on_step True (pre @ p # rest) key_held s = (Break, s')
      \<and> events s' = events s @ tr @ [IsSet True]"
  using assms(1,2)
proof (induction pre arbitrary: key_held s)
  case Nil
  have "main_loop on_step True (p # rest) key_held s = (Break, emit (IsSet True) s)"
    using assms(3) by (simp only: main_loop_Cons if_P simp_thms)
  then show ?case by (intro exI[where x = "emit (IsSet True) s"] exI[where x = "[]"]) (simp add: events_emit)
next
  case (Cons q pre)
  from Cons.prems(2) have nq: "\<not> (True \<and> stop_is_set q)" and ni: "\<not> interrupt q"
    and na: "on_step \<longrightarrow> (\<forall>b. step q \<noteq> RaisesBase b)"
    and rest: "\<forall>q \<in> set pre. \<not> stop_is_set q \<and> \<not> interrupt q
        \<and> (on_step \<longrightarrow> (\<forall>b. step q \<noteq> RaisesBase b))" by simp_all
  from main_loop_step[OF Cons.prems(1) nq, where on_step = on_step and key_held = key_held]
  obtain oc s3 tr where
    h: "set_inv s3"
       "events s3 = events s @ (if True then [IsSet False] else []) @ [IsPressed (is_pressed q)] @ tr"
       "oc = Normal \<or> (\<exists>b. oc = Raised (Uncaught b) \<and> on_step \<and> step q = RaisesBase b)"
       "\<forall>ps. main_loop on_step True (q # ps) key_held s =
            (case oc of
               Raised e \<Rightarrow>
                 (if e = Uncaught KeyboardInterrupt then Interrupted else Propagated e, s3)
             | Normal \<Rightarrow>
                 if interrupt q then (Interrupted, emit (Sleep 20) s3)
                 else main_loop on_step True ps (is_pressed q) (emit (Sleep 20) s3))"
    by (elim exE conjE) (rule that; assumption)
  from h(3) na have n: "oc = Normal" by blast
  from h(4) n ni have ml: "main_loop on_step True (q # pre @ p # rest) key_held s =
          main_loop on_step True (pre @ p # rest) (is_pressed q) (emit (Sleep 20) s3)"
    by simp
  have "set_inv (emit (Sleep 20) s3)" using h(1) by simp
  from Cons.IH[OF this rest, of "is_pressed q"] obtain s' tr' where
    ih: "main_loop on_step True (pre @ p # rest) (is_pressed q) (emit (Sleep 20) s3) = (Break, s')"
        "events s' = events (emit (Sleep 20) s3) @ tr' @ [IsSet True]" by blast
  show ?case
    apply (rule exI[where x = s'],
           rule exI[where x = "[IsSet False] @ [IsPressed (is_pressed q)] @ tr @ [Sleep 20] @ tr'"])
    using h(2) ml ih by (simp add: events_emit del: main_loop.simps)
qed

subsection \<open>Cancellation and shutdown\<close>

lemma events_finally_block:
  "events (finally_block s) =
     events s @ (if current_channel s = None then [] else [Fadeout 500, Sleep 500])
       @ [Print EngineStopped]"
  by (simp add: finally_block_def events_emit fields_emit)

lemma main_loop_first:
  assumes "\<not> stop_is_set p"
  shows "\<exists>tr. events (snd (main_loop on_step True (p # ps) key_held s)) =
           events s @ [IsSet False, IsPressed (is_pressed p)] @ tr"
proof -
  define s2 where "s2 = emit (IsPressed (is_pressed p)) (if True then emit (IsSet False) s else s)"
  have e2: "events s2 = events s @ [IsSet False, IsPressed (is_pressed p)]"
    by (simp add: s2_def events_emit)
  define res where "res = (if is_pressed p \<and> \<not> key_held
                 then advance_state (if on_step then Some (step p) else None) (rand p)
                        (emit AdvanceCall s2)
                 else (Normal, s2))"
  from assms have ns: "\<not> (True \<and> stop_is_set p)" by simp
  have ml: "main_loop on_step True (p # ps) key_held s =
          (case res of
             (Raised e, s3) \<Rightarrow>
               (if e = Uncaught KeyboardInterrupt then Interrupted else Propagated e, s3)
           | (Normal, s3) \<Rightarrow>
               if interrupt p then (Interrupted, emit (Sleep 20) s3)
               else main_loop on_step True ps (is_pressed p) (emit (Sleep 20) s3))"
    unfolding res_def s2_def by (simp only: main_loop_Cons if_not_P[OF ns] Let_def)
  have "\<exists>tr. events (snd res) = events s2 @ tr"
  proof (cases "is_pressed p \<and> \<not> key_held")
    case True
    have r: "res = advance_state (if on_step then Some (step p) else None) (rand p)
                        (emit AdvanceCall s2)"
      unfolding res_def by (rule if_P[OF True])
    from advance_state_appends[of "if on_step then Some (step p) else None" "rand p" "emit AdvanceCall s2"]
    show ?thesis unfolding r by (auto simp: events_emit)
  next
    case False
    have r: "res = (Normal, s2)" unfolding res_def by (rule if_not_P[OF False])
    show ?thesis unfolding r by simp
  qed
  then obtain tr where tr: "events (snd res) = events s2 @ tr" by blast
  obtain oc s3 where r: "res = (oc, s3)" by (cases res)
  with tr have e3: "events s3 = events s2 @ tr" by simp
  from main_loop_key_trace[of on_step True ps "is_pressed p" "emit (Sleep 20) s3"]
  obtain tr' where tr': "events (snd (main_loop on_step True ps (is_pressed p) (emit (Sleep 20) s3)))
       = events (emit (Sleep 20) s3) @ tr'" by blast
  have "\<exists>tr''. events (snd (main_loop on_step True (p # ps) key_held s)) = events s2 @ tr''"
    unfolding ml r using e3 tr'
    by (cases oc) (auto simp: events_emit simp del: main_loop.simps)
  then show ?thesis unfolding e2 by auto
qed

lemma try_loop_Break:
  "main_loop on_step stop_event polls False s = (Break, s') \<Longrightarrow>
   try_loop on_step stop_event polls s = (Returned, finally_block s')"
  by (simp add: try_loop_def)

text \<open>
  Claim C8.  With a stop event given: an iteration first asks \<^verbatim>\<open>stop_event.is_set()\<close>.
  If it is set the loop breaks at once, the key not being sampled in that iteration
  (whatever the key, the latch and the state are); if not, the next event is the key
  sample.  When the loop breaks, the \<^verbatim>\<open>try\<close> statement returns through the
  \<^verbatim>\<open>finally\<close> block, which fades out (500 ms) and waits only if the channel is busy,
  and then prints that the engine stopped.  And the loop does break: from a state that
  satisfies the invariant on the set, if the stop event is first set at some poll, no
  interrupt comes before, and no call of the callback before is left by an exception
  that \<^verbatim>\<open>except Exception\<close> does not catch (such an exception ends the loop by itself),
  the run returns, and its events end with the sample of the set flag followed by the
  shutdown events.
\<close>

theorem C8_cancellation:
  "(stop_is_set p \<longrightarrow> main_loop on_step True (p # ps) key_held s = (Break, emit (IsSet True) s))
   \<and> (\<not> stop_is_set p \<longrightarrow>
        (\<exists>tr. events (snd (main_loop on_step True (p # ps) key_held s)) =
                events s @ [IsSet False, IsPressed (is_pressed p)] @ tr))
   \<and> (\<forall>s'. main_loop on_step stop_event polls False s = (Break, s') \<longrightarrow>
          try_loop on_step stop_event polls s = (Returned, finally_block s'))
   \<and> events (finally_block s) =
         events s @ (if current_channel s = None then [] else [Fadeout 500, Sleep 500])
           @ [Print EngineStopped]
   \<and> (set_inv s \<and> (\<forall>q \<in> set pre. \<not> stop_is_set q \<and> \<not> interrupt q
              \<and> (on_step \<longrightarrow> (\<forall>b. step q \<noteq> RaisesBase b))) \<and> stop_is_set p \<longrightarrow>
        (\<exists>s' tr. try_loop on_step True (pre @ p # rest) s = (Returned, finally_block s')
           \<and> events (finally_block s') =
               events s @ tr @ [IsSet True]
                 @ (if current_channel s' = None then [] else [Fadeout 500, Sleep 500])
                 @ [Print EngineStopped]))"
proof -
  have 1: "stop_is_set p \<longrightarrow> main_loop on_step True (p # ps) key_held s = (Break, emit (IsSet True) s)"
    by (simp only: main_loop_Cons) simp
  have 2: "\<not> stop_is_set p \<longrightarrow>
        (\<exists>tr. events (snd (main_loop on_step True (p # ps) key_held s)) =
                events s @ [IsSet False, IsPressed (is_pressed p)] @ tr)"
    using main_loop_first[of p on_step ps key_held s] by blast
  have 3: "\<forall>s'. main_loop on_step stop_event polls False s = (Break, s') \<longrightarrow>
          try_loop on_step stop_event polls s = (Returned, finally_block s')"
    using try_loop_Break by blast
  have 5: "set_inv s \<and> (\<forall>q \<in> set pre. \<not> stop_is_set q \<and> \<not> interrupt q
              \<and> (on_step \<longrightarrow> (\<forall>b. step q \<noteq> RaisesBase b))) \<and> stop_is_set p \<longrightarrow>
        (\<exists>s' tr. try_loop on_step True (pre @ p # rest) s = (Returned, finally_block s')
           \<and> events (finally_block s') =
               events s @ tr @ [IsSet True]
                 @ (if current_channel s' = None then [] else [Fadeout 500, Sleep 500])
                 @ [Print EngineStopped])"
  proof
    assume a: "set_inv s \<and> (\<forall>q \<in> set pre. \<not> stop_is_set q \<and> \<not> interrupt q
              \<and> (on_step \<longrightarrow> (\<forall>b. step q \<noteq> RaisesBase b))) \<and> stop_is_set p"
    from main_loop_stops[where s = s and pre = pre and p = p and on_step = on_step
        and rest = rest and key_held = False] a obtain s' tr where
      h: "main_loop on_step True (pre @ p # rest) False s = (Break, s')"
         "events s' = events s @ tr @ [IsSet True]" by blast
    show "\<exists>s' tr. try_loop on_step True (pre @ p # rest) s = (Returned, finally_block s')
           \<and> events (finally_block s') =
               events s @ tr @ [IsSet True]
                 @ (if current_channel s' = None then [] else [Fadeout 500, Sleep 500])
                 @ [Print EngineStopped]"
      apply (rule exI[where x = s'], rule exI[where x = tr])
      using try_loop_Break[OF h(1)] h(2) by (simp add: events_finally_block)
  qed
  from 1 2 3 5 events_finally_block[of s] show ?thesis by blast
qed

theorem C8_witness:
  "stop_is_set stop_poll
   \<and> main_loop True True (stop_poll # [press_poll]) False one_set = (Break, emit (IsSet True) one_set)
   \<and> set_inv one_set
   \<and> fst (try_loop True True ([press_poll, press_poll, idle_poll] @ stop_poll # [press_poll]) one_set)
        = Returned
   \<and> events (snd (try_loop True True ([press_poll, press_poll, idle_poll] @ stop_poll # [press_poll]) one_set))
        = [IsSet False, IsPressed True, AdvanceCall, Print (ToState2 ''A''),
           Print (PlayingSet ''A'' 2), Fadeout 250, Play (Sound ''a2'') (- 1) 250, OnStep, Sleep 20,
           IsSet False, IsPressed True, Sleep 20,
           IsSet False, IsPressed False, Sleep 20,
           IsSet True, Fadeout 500, Sleep 500, Print EngineStopped]"
proof -
  have a: "stop_is_set stop_poll" by (simp add: stop_poll_def)
  have b: "set_inv one_set" by (simp add: set_inv_def lib_ok_def one_set_def)
  have c: "\<forall>q \<in> set [press_poll, press_poll, idle_poll]. \<not> stop_is_set q \<and> \<not> interrupt q
              \<and> (True \<longrightarrow> (\<forall>b. step q \<noteq> RaisesBase b))"
    by (simp add: press_poll_def idle_poll_def)
  note T = C8_cancellation[where p = stop_poll and on_step = True and ps = "[press_poll]"
      and key_held = False and s = one_set and pre = "[press_poll, press_poll, idle_poll]"
      and rest = "[press_poll]"]
  from T a have 1: "main_loop True True (stop_poll # [press_poll]) False one_set
      = (Break, emit (IsSet True) one_set)" by blast
  from T a b c have "\<exists>s' tr. try_loop True True ([press_poll, press_poll, idle_poll] @ stop_poll # [press_poll]) one_set
      = (Returned, finally_block s')" by blast
  then have 2: "fst (try_loop True True ([press_poll, press_poll, idle_poll] @ stop_poll # [press_poll]) one_set)
        = Returned" by auto
  have 3: "events (snd (try_loop True True ([press_poll, press_poll, idle_poll] @ stop_poll # [press_poll]) one_set))
        = [IsSet False, IsPressed True, AdvanceCall, Print (ToState2 ''A''),
           Print (PlayingSet ''A'' 2), Fadeout 250, Play (Sound ''a2'') (- 1) 250, OnStep, Sleep 20,
           IsSet False, IsPressed True, Sleep 20,
           IsSet False, IsPressed False, Sleep 20,
           IsSet True, Fadeout 500, Sleep 500, Print EngineStopped]"
    by code_simp
  from a b 1 2 3 show ?thesis by blast
qed

subsection \<open>The invariant\<close>

lemma start_set_inv:
  assumes "set_inv s" "name \<in> set (map fst (music_sets s))"
  shows "\<exists>s' tr. start_set name s = (Normal, s') \<and> engine_inv s'
      \<and> current_set_name s' = Some name \<and> music_sets s' = music_sets s
      \<and> events s' = events s @ tr \<and> no_invalid_state tr"
proof -
  from assms have lib: "lib_ok (music_sets s)" by (simp add: set_inv_def)
  from lib_ok_lookup[OF lib assms(2)] obtain tracks
    where t: "map_of (music_sets s) name = Some tracks" "length tracks = 3" by blast
  note eq = start_set_ok[OF t]
  show ?thesis
    apply (rule exI, rule exI[where x = "[Print (SwitchedToSet name), Print (PlayingSet name 1)]
                  @ (if current_channel s = None then [] else [Fadeout CROSSFADE_MS])
                  @ [Play (tracks ! 0) (- 1) CROSSFADE_MS]"])
    apply (rule conjI, rule eq)
    using lib assms(2) by (simp add: engine_inv_def set_inv_def)
qed

lemma play_current_state_inv:
  assumes "engine_inv s"
  shows "\<exists>s' tr. play_current_state s = (Normal, s') \<and> engine_inv s'
      \<and> events s' = events s @ tr \<and> no_invalid_state tr"
    and "\<forall>name. current_set_name s = Some name \<longrightarrow>
          (\<exists>sounds. map_of (music_sets s) name = Some sounds
             \<and> 0 \<le> current_state s - 1 \<and> current_state s - 1 < int (length sounds))"
proof -
  from assms have lib: "lib_ok (music_sets s)"
    and st: "current_state s = 1 \<or> current_state s = 2 \<or> current_state s = 3"
    by (simp_all add: engine_inv_def set_inv_def)
  have idx: "\<exists>sounds. map_of (music_sets s) name = Some sounds \<and> length sounds = 3"
    if "current_set_name s = Some name" for name
  proof -
    from assms that have "name \<in> set (map fst (music_sets s))"
      by (simp add: engine_inv_def set_inv_def)
    from lib_ok_lookup[OF lib this] show ?thesis .
  qed
  show "\<forall>name. current_set_name s = Some name \<longrightarrow>
          (\<exists>sounds. map_of (music_sets s) name = Some sounds
             \<and> 0 \<le> current_state s - 1 \<and> current_state s - 1 < int (length sounds))"
    using idx st by fastforce
  show "\<exists>s' tr. play_current_state s = (Normal, s') \<and> engine_inv s'
      \<and> events s' = events s @ tr \<and> no_invalid_state tr"
  proof (cases "current_set_name s")
    case None
    with assms show ?thesis by (simp add: play_current_state_def)
  next
    case (Some name)
    from idx[OF Some] obtain tracks where
      t: "map_of (music_sets s) name = Some tracks" "length tracks = 3" by blast
    have "play_current_state s =
      (Normal, s\<lparr>current_channel := Some (tracks ! nat (current_state s - 1)),
               events := events s @ [Print (PlayingSet name (current_state s))]
                  @ (if current_channel s = None then [] else [Fadeout CROSSFADE_MS])
                  @ [Play (tracks ! nat (current_state s - 1)) (- 1) CROSSFADE_MS]\<rparr>)"
      by (rule play_current_state_ok[OF Some t(1)]) (use st t(2) in auto)
    then show ?thesis
      apply -
      apply (rule exI, rule exI[where x = "[Print (PlayingSet name (current_state s))]
                  @ (if current_channel s = None then [] else [Fadeout CROSSFADE_MS])
                  @ [Play (tracks ! nat (current_state s - 1)) (- 1) CROSSFADE_MS]"])
      apply (rule conjI, assumption)
      using assms Some by (simp add: engine_inv_def set_inv_def)
  qed
qed

lemma initial_engine_inv: "lib_ok lib \<Longrightarrow> engine_inv (initial_engine lib ch evs)"
  by (simp add: engine_inv_def set_inv_def initial_engine_def)

lemma choose_first_set:
  assumes "lib_ok (music_sets s)"
  shows "\<exists>name. choose_random_set None r s = Inr name \<and> name \<in> set (map fst (music_sets s))"
proof -
  from assms have "map fst (music_sets s) \<noteq> []" by (simp add: lib_ok_def)
  then show ?thesis
    by (simp add: choose_random_set_def random_choice_def draw_pool_def)
qed

lemma load_events_valid:
  assumes "load_sets w = Some (lib, evs)"
  shows "no_invalid_state evs"
proof -
  have "load_event e \<Longrightarrow> \<not> invalid_state_event e" for e
    by (induction e rule: load_event.induct) simp_all
  with load_events_all[OF assms] show ?thesis
    by (auto simp: no_invalid_state_def list_all_iff)
qed

lemma startup_events_valid: "no_invalid_state (startup_events w k)"
  by (simp add: startup_events_def)

text \<open>
  A run of \<^verbatim>\<open>run_engine\<close>: nothing of the engine's own raises, so the only exception
  that can leave it is one that the callback raised and that neither
  \<^verbatim>\<open>except Exception\<close> (line 168) nor \<^verbatim>\<open>except KeyboardInterrupt\<close> (line 197) catches.
\<close>

lemma run_engine_safe:
  "(\<forall>e. fst (run_engine w trigger_key on_step stop_event draw polls) = Escaped e \<longrightarrow>
        (\<exists>b. e = Uncaught b \<and> b \<noteq> KeyboardInterrupt \<and> on_step
             \<and> RaisesBase b \<in> set (map step polls)))
   \<and> no_invalid_state (snd (run_engine w trigger_key on_step stop_event draw polls))"
proof (cases "load_sets w")
  case None
  then show ?thesis by (simp add: run_engine_def startup_events_valid)
next
  case (Some a)
  obtain lib evs where a: "a = (lib, evs)" by (cases a)
  with Some have l: "load_sets w = Some (lib, evs)" by simp
  note ev = load_events_valid[OF l]
  show ?thesis
  proof (cases "lib = []")
    case True
    with l ev show ?thesis by (simp add: run_engine_def startup_events_valid)
  next
    case False
    define s0 where "s0 = initial_engine lib (channel0 w)
                       (startup_events w trigger_key @ evs @ [Print (LoadedSets (map fst lib))])"
    have lib: "lib_ok lib" by (rule load_sets_lib_ok[OF l False])
    have e0: "no_invalid_state (events s0)"
      using ev by (simp add: s0_def initial_engine_def startup_events_valid)
    have i0: "set_inv s0" "music_sets s0 = lib"
      using initial_engine_inv[OF lib] by (simp_all add: s0_def engine_inv_def initial_engine_def)
    from choose_first_set[of s0 draw] lib i0 obtain name where
      n: "choose_random_set None draw s0 = Inr name" "name \<in> set (map fst (music_sets s0))"
      by auto
    from start_set_inv[OF i0(1) n(2)] obtain s1 tr1 where
      s1: "start_set name s0 = (Normal, s1)" "engine_inv s1" "events s1 = events s0 @ tr1"
          "no_invalid_state tr1" by blast
    define s1' where "s1' = emit (Print (PressToAdvance trigger_key)) s1"
    have i1: "set_inv s1'" using s1(2) by (simp add: s1'_def engine_inv_def)
    have e1: "no_invalid_state (events s1')" using e0 s1(3,4) by (simp add: s1'_def events_emit)
    from main_loop_safe[OF i1, of on_step stop_event polls False] obtain ex s2 tr2 where
      m: "main_loop on_step stop_event polls False s1' = (ex, s2)"
         "\<forall>e. ex = Propagated e \<longrightarrow>
            (\<exists>b. e = Uncaught b \<and> b \<noteq> KeyboardInterrupt \<and> on_step
                 \<and> RaisesBase b \<in> set (map step polls))"
         "events s2 = events s1' @ tr2" "no_invalid_state tr2"
      by (elim exE conjE) (rule that; assumption)
    have e2: "no_invalid_state (events s2)" using e1 m(3,4) by simp
    have t: "(\<forall>e. fst (try_loop on_step stop_event polls s1') = Escaped e \<longrightarrow>
            (\<exists>b. e = Uncaught b \<and> b \<noteq> KeyboardInterrupt \<and> on_step
                 \<and> RaisesBase b \<in> set (map step polls)))
        \<and> no_invalid_state (events (snd (try_loop on_step stop_event polls s1')))"
      using m(1,2) e2 by (cases ex) (simp_all add: try_loop_def events_finally_block events_emit)
    have "run_engine w trigger_key on_step stop_event draw polls =
        (fst (try_loop on_step stop_event polls s1'), events (snd (try_loop on_step stop_event polls s1')))"
      using l False n(1) s1(1)
      by (simp add: run_engine_def s0_def[symmetric] s1'_def[symmetric] split: prod.splits)
    with t show ?thesis by simp
  qed
qed

text \<open>
  Claim C10.  The invariant is: the library is not empty, has one entry per name and
  three sounds per entry; the current set, if any, is one of its names; the state is 1, 2
  or 3.  It holds of the state the engine builds from a loaded library that is not
  empty, and \<^verbatim>\<open>start_set\<close> (on a name of the library), \<^verbatim>\<open>advance_state\<close>,
  \<^verbatim>\<open>play_current_state\<close>, \<^verbatim>\<open>play_loop_sound\<close> and the main loop preserve it, also
  when the callback raises.  They raise nothing of their own: \<^verbatim>\<open>advance_state\<close> is left
  by an exception exactly when there is a current set and the callback raises one that
  \<^verbatim>\<open>except Exception\<close> does not catch, and only such an exception, raised by the
  callback at one of the polls, can leave the main loop or \<^verbatim>\<open>run_engine\<close> (never a
  \<^verbatim>\<open>KeyError\<close> or an \<^verbatim>\<open>IndexError\<close> of the engine).  Under the invariant the
  index \<^verbatim>\<open>current_state - 1\<close> is within the current set's list, and
  \<^verbatim>\<open>play_current_state\<close> prints no ``Invalid state''.  So no run of \<^verbatim>\<open>run_engine\<close>,
  whatever the directory tree, the draws, the samples and the callback, prints
  ``Invalid state''.
\<close>

theorem C10_invariant:
  "(\<forall>lib evs. load_sets w = Some (lib, evs) \<and> lib \<noteq> [] \<longrightarrow>
        lib_ok lib \<and> engine_inv (initial_engine lib channel log))
   \<and> (set_inv s \<and> name \<in> set (map fst (music_sets s)) \<longrightarrow>
        fst (start_set name s) = Normal \<and> engine_inv (snd (start_set name s))
        \<and> current_set_name (snd (start_set name s)) = Some name)
   \<and> (engine_inv s \<longrightarrow>
        fst (advance_state cb r s) =
          (if current_set_name s = None then Normal else notify_outcome cb)
        \<and> engine_inv (snd (advance_state cb r s)))
   \<and> (engine_inv s \<longrightarrow>
        fst (play_current_state s) = Normal \<and> engine_inv (snd (play_current_state s))
        \<and> (\<exists>tr. events (snd (play_current_state s)) = events s @ tr \<and> no_invalid_state tr)
        \<and> (\<forall>n. current_set_name s = Some n \<longrightarrow>
              (\<exists>sounds. map_of (music_sets s) n = Some sounds
                 \<and> 0 \<le> current_state s - 1 \<and> current_state s - 1 < int (length sounds))))
   \<and> (engine_inv s \<longrightarrow> engine_inv (play_loop_sound sound s))
   \<and> (engine_inv s \<longrightarrow>
        engine_inv (snd (main_loop on_step stop_event polls key_held s))
        \<and> (\<forall>e. fst (main_loop on_step stop_event polls key_held s) = Propagated e \<longrightarrow>
              (\<exists>b. e = Uncaught b \<and> b \<noteq> KeyboardInterrupt \<and> on_step
                   \<and> RaisesBase b \<in> set (map step polls))))
   \<and> (\<forall>e. fst (run_engine w trigger_key on_step stop_event draw polls) = Escaped e \<longrightarrow>
        (\<exists>b. e = Uncaught b \<and> b \<noteq> KeyboardInterrupt \<and> on_step
             \<and> RaisesBase b \<in> set (map step polls)))
   \<and> no_invalid_state (snd (run_engine w trigger_key on_step stop_event draw polls))"
proof -
  have 1: "\<forall>lib evs. load_sets w = Some (lib, evs) \<and> lib \<noteq> [] \<longrightarrow>
        lib_ok lib \<and> engine_inv (initial_engine lib channel log)"
    using load_sets_lib_ok initial_engine_inv by blast
  have 2: "set_inv s \<and> name \<in> set (map fst (music_sets s)) \<longrightarrow>
        fst (start_set name s) = Normal \<and> engine_inv (snd (start_set name s))
        \<and> current_set_name (snd (start_set name s)) = Some name"
  proof
    assume "set_inv s \<and> name \<in> set (map fst (music_sets s))"
    then have "set_inv s" "name \<in> set (map fst (music_sets s))" by simp_all
    from start_set_inv[OF this] obtain s' where
      "start_set name s = (Normal, s')" "engine_inv s'" "current_set_name s' = Some name" by blast
    then show "fst (start_set name s) = Normal \<and> engine_inv (snd (start_set name s))
        \<and> current_set_name (snd (start_set name s)) = Some name" by simp
  qed
  have 3: "engine_inv s \<longrightarrow>
        fst (advance_state cb r s) =
          (if current_set_name s = None then Normal else notify_outcome cb)
        \<and> engine_inv (snd (advance_state cb r s))"
  proof
    assume e: "engine_inv s"
    then have "set_inv s" by (simp add: engine_inv_def)
    from advance_state_ok[OF this, of cb r] obtain s' where
      h: "advance_state cb r s =
            (if current_set_name s = None then Normal else notify_outcome cb, s')"
         "current_set_name s \<noteq> None \<longrightarrow> engine_inv s' \<and> current_set_name s' \<noteq> None"
         "current_set_name s = None \<longrightarrow> s' = s"
      by (elim exE conjE) (rule that; assumption)
    from h(2,3) e have "engine_inv s'" by blast
    with h(1) show "fst (advance_state cb r s) =
          (if current_set_name s = None then Normal else notify_outcome cb)
        \<and> engine_inv (snd (advance_state cb r s))"
      by simp
  qed
  have 4: "engine_inv s \<longrightarrow>
        fst (play_current_state s) = Normal \<and> engine_inv (snd (play_current_state s))
        \<and> (\<exists>tr. events (snd (play_current_state s)) = events s @ tr \<and> no_invalid_state tr)
        \<and> (\<forall>n. current_set_name s = Some n \<longrightarrow>
              (\<exists>sounds. map_of (music_sets s) n = Some sounds
                 \<and> 0 \<le> current_state s - 1 \<and> current_state s - 1 < int (length sounds)))"
  proof
    assume e: "engine_inv s"
    from play_current_state_inv(1)[OF e] obtain s' tr where
      h: "play_current_state s = (Normal, s')" "engine_inv s'" "events s' = events s @ tr"
         "no_invalid_state tr" by blast
    from h play_current_state_inv(2)[OF e]
    show "fst (play_current_state s) = Normal \<and> engine_inv (snd (play_current_state s))
        \<and> (\<exists>tr. events (snd (play_current_state s)) = events s @ tr \<and> no_invalid_state tr)
        \<and> (\<forall>n. current_set_name s = Some n \<longrightarrow>
              (\<exists>sounds. map_of (music_sets s) n = Some sounds
                 \<and> 0 \<le> current_state s - 1 \<and> current_state s - 1 < int (length sounds)))"
      by auto
  qed
  have 5: "engine_inv s \<longrightarrow> engine_inv (play_loop_sound sound s)"
    by (simp add: engine_inv_def set_inv_def fields_play_loop_sound split: option.splits)
  have 6: "engine_inv s \<longrightarrow>
        engine_inv (snd (main_loop on_step stop_event polls key_held s))
        \<and> (\<forall>e. fst (main_loop on_step stop_event polls key_held s) = Propagated e \<longrightarrow>
              (\<exists>b. e = Uncaught b \<and> b \<noteq> KeyboardInterrupt \<and> on_step
                   \<and> RaisesBase b \<in> set (map step polls)))"
  proof
    assume e: "engine_inv s"
    then have "set_inv s" by (simp add: engine_inv_def)
    from main_loop_safe[OF this, of on_step stop_event polls key_held] obtain ex s' where
      "main_loop on_step stop_event polls key_held s = (ex, s')"
      "\<forall>e. ex = Propagated e \<longrightarrow>
         (\<exists>b. e = Uncaught b \<and> b \<noteq> KeyboardInterrupt \<and> on_step
              \<and> RaisesBase b \<in> set (map step polls))"
      "engine_inv s \<longrightarrow> engine_inv s'"
      by (elim exE conjE) (rule that; assumption)
    with e show "engine_inv (snd (main_loop on_step stop_event polls key_held s))
        \<and> (\<forall>e. fst (main_loop on_step stop_event polls key_held s) = Propagated e \<longrightarrow>
              (\<exists>b. e = Uncaught b \<and> b \<noteq> KeyboardInterrupt \<and> on_step
                   \<and> RaisesBase b \<in> set (map step polls)))"
      by simp
  qed
  from 1 2 3 4 5 6 run_engine_safe[of w trigger_key on_step stop_event draw polls]
  show ?thesis by blast
qed

theorem C10_witness:
  "load_sets demo_world = Some (demo_sets, [Print (FailedToLoad ''sets/C/c2.wav''), Print (SkippingSet ''C'' 2)])
   \<and> lib_ok demo_sets
   \<and> engine_inv two_sets
   \<and> fst (advance_state (Some (Raises ''boom'')) 5 two_sets) = Normal
   \<and> engine_inv (snd (advance_state (Some (Raises ''boom'')) 5 two_sets))
   \<and> fst (main_loop True True [press_poll, idle_poll, press_poll] False two_sets) = Polling
   \<and> engine_inv (snd (main_loop True True [press_poll, idle_poll, press_poll] False two_sets))
   \<and> fst (run_engine demo_world ''r'' True True 3
            [press_poll, press_poll, idle_poll, press_poll, idle_poll, press_poll, stop_poll]) = Returned
   \<and> no_invalid_state (snd (run_engine demo_world ''r'' True True 3
            [press_poll, press_poll, idle_poll, press_poll, idle_poll, press_poll, stop_poll]))"
proof -
  let ?polls = "[press_poll, press_poll, idle_poll, press_poll, idle_poll, press_poll, stop_poll]"
  have ne: "demo_sets \<noteq> []" by (simp add: demo_sets_def)
  have e: "engine_inv two_sets" by (simp add: engine_inv_def set_inv_def lib_ok_def two_sets_def)
  note T = C10_invariant[where w = demo_world and s = two_sets and cb = "Some (Raises ''boom'')"
      and r = 5 and on_step = True and stop_event = True and key_held = False
      and polls = "[press_poll, idle_poll, press_poll]"]
  note U = C10_invariant[where w = demo_world and trigger_key = "''r''" and on_step = True
      and stop_event = True and draw = 3 and polls = ?polls]
  from T load_demo_world ne have 1: "lib_ok demo_sets" by blast
  have nn: "current_set_name two_sets \<noteq> None" by (simp add: two_sets_def)
  have no: "notify_outcome (Some (Raises ''boom'')) = Normal" by (simp add: notify_outcome_def)
  from T e have "fst (advance_state (Some (Raises ''boom'')) 5 two_sets) =
      (if current_set_name two_sets = None then Normal else notify_outcome (Some (Raises ''boom'')))"
    by blast
  with nn no have 2: "fst (advance_state (Some (Raises ''boom'')) 5 two_sets) = Normal" by simp
  from T e have 3: "engine_inv (snd (advance_state (Some (Raises ''boom'')) 5 two_sets))"
    and 4: "engine_inv (snd (main_loop True True [press_poll, idle_poll, press_poll] False two_sets))"
    by blast+
  have 5: "fst (main_loop True True [press_poll, idle_poll, press_poll] False two_sets) = Polling"
    by code_simp
  from U have 6: "no_invalid_state (snd (run_engine demo_world ''r'' True True 3 ?polls))"
    by blast
  have 7: "fst (run_engine demo_world ''r'' True True 3 ?polls) = Returned"
    by code_simp
  from load_demo_world 1 e 2 3 4 5 6 7 show ?thesis by blast
qed
end
